theory Spec2Isabelle
  imports Complex_Main "HOL-Library.Product_Lexorder" "HOL-Library.Option_ord" "HOL-Library.Multiset"
begin

text \<open>
  A model of \<open>rssi.py\<close>, the assistant's single source file: the reading and chunking of the
  PDF corpus, the advisory feed, the embedding index and the retrieval, the conversation log
  and the reading of the generation service's reply. Each function keeps its name. Calls
  into libraries (PyMuPDF, sentence-transformers, FAISS, feedparser, \<open>json\<close>) are modelled by
  what they return or raise; an exception is a value of \<open>py_error\<close>.
\<close>

section \<open>Python values used by \<open>rssi.py\<close>\<close>

text \<open>
  A Python \<open>str\<close> is a sequence of Unicode code points: \<open>len\<close>, slicing and \<open>strip\<close> count and
  test code points, not bytes. A string is therefore a list of code point numbers. \<open>ascii\<close>
  turns an Isabelle literal into such a list.
\<close>

type_synonym str = "nat list"

definition ascii :: "string \<Rightarrow> str" where
  "ascii s = map of_char s"

text \<open>The exceptions that the modelled functions and the library calls they make can raise.\<close>

datatype py_error =
    ValueError
  | IndexError
  | TypeError
  | AttributeError
  | KeyError
  | AssertionError
  | FileNotFoundError
  | ExtractionError
  | UnicodeEncodeError
  | UnicodeDecodeError
  | JSONDecodeError
  | RecursionError

text \<open>
  \<open>str.strip()\<close> removes the characters for which \<open>str.isspace()\<close> holds from both ends: the
  code points U+0009..U+000D, U+001C..U+0020, U+0085, U+00A0, U+1680, U+2000..U+200A, U+2028,
  U+2029, U+202F, U+205F and U+3000.
\<close>

definition py_isspace :: "nat \<Rightarrow> bool" where
  "py_isspace c \<longleftrightarrow>
     (9 \<le> c \<and> c \<le> 13) \<or> (28 \<le> c \<and> c \<le> 32) \<or> c = 133 \<or> c = 160 \<or> c = 5760 \<or>
     (8192 \<le> c \<and> c \<le> 8202) \<or> c = 8232 \<or> c = 8233 \<or> c = 8239 \<or> c = 8287 \<or> c = 12288"

definition py_strip :: "str \<Rightarrow> str" where
  "py_strip s = rev (dropWhile py_isspace (rev (dropWhile py_isspace s)))"

text \<open>
  \<open>s[i:j]\<close> for arbitrary integers: a negative bound counts from the end, and both bounds are
  clamped to \<open>0..len(s)\<close>; the slice is empty when the bounds cross.
\<close>

definition py_borne :: "int \<Rightarrow> int \<Rightarrow> int" where
  "py_borne n k = (if k < 0 then max 0 (n + k) else min n k)"

definition py_slice :: "'a list \<Rightarrow> int \<Rightarrow> int \<Rightarrow> 'a list" where
  "py_slice xs i j =
     (let n = int (length xs); a = py_borne n i; b = py_borne n j
      in take (nat (b - a)) (drop (nat a) xs))"

text \<open>
  \<open>xs[i]\<close> for a list: a negative index counts from the end, an index outside
  \<open>-len(xs)..len(xs)-1\<close> raises \<open>IndexError\<close>.
\<close>

definition py_index :: "'a list \<Rightarrow> int \<Rightarrow> py_error + 'a" where
  "py_index xs i =
     (if 0 \<le> i \<and> i < int (length xs) then Inr (xs ! nat i)
      else if i < 0 \<and> - int (length xs) \<le> i then Inr (xs ! nat (int (length xs) + i))
      else Inl IndexError)"

text \<open>
  \<open>range(start, stop, step)\<close> as the list of its elements. A zero step raises \<open>ValueError\<close>;
  the number of elements is the one CPython computes for the range object.
\<close>

definition py_range :: "int \<Rightarrow> int \<Rightarrow> int \<Rightarrow> py_error + int list" where
  "py_range start stop step =
     (if step = 0 then Inl ValueError
      else if 0 < step then
        Inr (map (\<lambda>k. start + int k * step) [0..<nat ((stop - start + step - 1) div step)])
      else
        Inr (map (\<lambda>k. start + int k * step) [0..<nat ((start - stop - step - 1) div (- step))]))"

text \<open>
  \<open>fichier.lower().endswith(".pdf")\<close>. Only the ASCII letters are lowered here: no other code
  point has \<open>.\<close>, \<open>p\<close>, \<open>d\<close> or \<open>f\<close> in its lower-case form, so the suffix test is the same.
\<close>

definition py_lower :: "str \<Rightarrow> str" where
  "py_lower s = map (\<lambda>c. if 65 \<le> c \<and> c \<le> 90 then c + 32 else c) s"

definition py_endswith :: "str \<Rightarrow> str \<Rightarrow> bool" where
  "py_endswith s suffixe \<longleftrightarrow>
     length suffixe \<le> length s \<and> drop (length s - length suffixe) s = suffixe"

text \<open>Line 35, the test that keeps a directory entry.\<close>

definition est_pdf :: "str \<Rightarrow> bool" where
  "est_pdf fichier \<longleftrightarrow> py_endswith (py_lower fichier) (ascii ''.pdf'')"

text \<open>Line 47, the test that keeps a slice: \<open>len(chunk.strip()) > 0\<close>.\<close>

definition garde :: "str \<Rightarrow> bool" where
  "garde chunk \<longleftrightarrow> 0 < length (py_strip chunk)"

section \<open>Reading and chunking the corpus: \<open>lire_et_chunker_pdfs\<close>\<close>

text \<open>
  The test of line 35 and the guard of line 47 are named \<open>est_pdf\<close> and \<open>garde\<close> above.
  The corpus directory as the function sees it: \<open>os.listdir\<close> either raises (\<open>None\<close>) or gives
  the entries in listing order. For each entry, the second component is what PyMuPDF gives
  for the file: \<open>None\<close> when \<open>fitz.open\<close> or a \<open>get_text\<close> call raises, otherwise the text of
  each page in page order. It is only looked at for names that end in \<open>.pdf\<close>.
\<close>

type_synonym entree = "str \<times> str list option"

text \<open>
  The two lists the function builds, and the warnings it has shown with \<open>st.warning\<close>
  (file name and exception).
\<close>

record etat =
  chunks :: "str list"
  metadatas :: "str list"
  avertissements :: "(str \<times> py_error) list"

text \<open>
  The inner loop, lines 45 to 49, over the elements of the range: a slice is appended,
  together with the file name, unless it is empty after \<open>strip\<close>.
\<close>

fun decouper :: "str \<Rightarrow> int \<Rightarrow> str \<Rightarrow> int list \<Rightarrow> etat \<Rightarrow> etat" where
  "decouper texte taille_chunk fichier [] e = e"
| "decouper texte taille_chunk fichier (i # reste) e =
     (let chunk = py_slice texte i (i + taille_chunk)
      in if garde chunk
         then decouper texte taille_chunk fichier reste
                (e\<lparr>chunks := chunks e @ [chunk], metadatas := metadatas e @ [fichier]\<rparr>)
         else decouper texte taille_chunk fichier reste e)"

text \<open>
  The body of the outer loop, lines 35 to 52. Everything from \<open>fitz.open\<close> to the end of the
  inner loop is inside the \<open>try\<close>: a failed extraction and the \<open>ValueError\<close> of a zero step
  both end in the \<open>except\<close> clause, which shows a warning and goes on to the next file.
\<close>

definition traiter_fichier :: "int \<Rightarrow> int \<Rightarrow> entree \<Rightarrow> etat \<Rightarrow> etat" where
  "traiter_fichier taille_chunk chevauchement ent e =
     (let fichier = fst ent
      in if est_pdf fichier
         then (case snd ent of
                 None \<Rightarrow> e\<lparr>avertissements := avertissements e @ [(fichier, ExtractionError)]\<rparr>
               | Some pages \<Rightarrow>
                   (let texte = concat pages
                    in case py_range 0 (int (length texte)) (taille_chunk - chevauchement) of
                         Inl err \<Rightarrow> e\<lparr>avertissements := avertissements e @ [(fichier, err)]\<rparr>
                       | Inr positions \<Rightarrow> decouper texte taille_chunk fichier positions e))
         else e)"

fun parcourir :: "int \<Rightarrow> int \<Rightarrow> entree list \<Rightarrow> etat \<Rightarrow> etat" where
  "parcourir taille_chunk chevauchement [] e = e"
| "parcourir taille_chunk chevauchement (ent # reste) e =
     parcourir taille_chunk chevauchement reste (traiter_fichier taille_chunk chevauchement ent e)"

definition lire_et_chunker_pdfs :: "entree list option \<Rightarrow> int \<Rightarrow> int \<Rightarrow> py_error + etat" where
  "lire_et_chunker_pdfs dossier taille_chunk chevauchement =
     (case dossier of
        None \<Rightarrow> Inl FileNotFoundError
      | Some entrees \<Rightarrow>
          Inr (parcourir taille_chunk chevauchement entrees
                 \<lparr>chunks = [], metadatas = [], avertissements = []\<rparr>))"

text \<open>
  For the statements below: the slices of one text that pass the guard, and the chunks that
  one directory entry contributes.
\<close>

definition tranches :: "str \<Rightarrow> int \<Rightarrow> int list \<Rightarrow> str list" where
  "tranches texte taille_chunk positions =
     filter garde (map (\<lambda>i. py_slice texte i (i + taille_chunk)) positions)"

definition chunks_du_fichier :: "int \<Rightarrow> int \<Rightarrow> entree \<Rightarrow> str list" where
  "chunks_du_fichier taille_chunk chevauchement ent =
     (if est_pdf (fst ent)
      then (case snd ent of
              None \<Rightarrow> []
            | Some pages \<Rightarrow>
                (case py_range 0 (int (length (concat pages))) (taille_chunk - chevauchement) of
                   Inl err \<Rightarrow> []
                 | Inr positions \<Rightarrow> tranches (concat pages) taille_chunk positions))
      else [])"

text \<open>
  With the default parameters the step is 400: the slice number \<open>j\<close> of a text, and the number
  of slices the loop takes, which is \<open>len(texte) / 400\<close> rounded up.
\<close>

definition tranche_500 :: "str \<Rightarrow> nat \<Rightarrow> str" where
  "tranche_500 texte j = py_slice texte (400 * int j) (400 * int j + 500)"

definition nb_tranches :: "str \<Rightarrow> nat" where
  "nb_tranches texte = (length texte + 399) div 400"

text \<open>
  The warnings one directory entry causes when the step \<open>taille_chunk - chevauchement\<close> is
  zero or negative.
\<close>

definition avertis_sans_pas :: "int \<Rightarrow> int \<Rightarrow> entree \<Rightarrow> (str \<times> py_error) list" where
  "avertis_sans_pas t v ent =
     (if est_pdf (fst ent)
      then (case snd ent of
              None \<Rightarrow> [(fst ent, ExtractionError)]
            | Some pages \<Rightarrow> if t = v then [(fst ent, ValueError)] else [])
      else [])"

section \<open>The advisory feed: \<open>get_alertes_certfr\<close>\<close>

text \<open>
  \<open>feedparser.parse\<close> gives the entries of the feed (none when the fetch fails). An entry is
  a dictionary read by attribute: an attribute that the feed item does not have raises
  \<open>AttributeError\<close>, which is \<open>None\<close> here. \<open>published_parsed\<close> is, when present, either the
  date as a \<open>time.struct_time\<close>, a tuple of nine integers compared lexicographically, or
  Python's \<open>None\<close> when feedparser could not read the date.
\<close>

type_synonym struct_time = "int \<times> int \<times> int \<times> int \<times> int \<times> int \<times> int \<times> int \<times> int"

record entry =
  title :: "str option"
  published :: "str option"
  published_parsed :: "struct_time option option"
  summary :: "str option"
  link :: "str option"

record alerte =
  titre :: str
  date :: str
  description :: str
  lien :: str

text \<open>
  \<open>sorted(xs, key=cle, reverse=True)\<close>: the sort is stable, and with \<open>reverse=True\<close> elements
  with equal keys still keep their original order; CPython reverses the list, sorts it and
  reverses the result.
\<close>

definition py_sorted_reverse :: "('a \<Rightarrow> 'k::linorder) \<Rightarrow> 'a list \<Rightarrow> 'a list" where
  "py_sorted_reverse cle xs = rev (sort_key cle (rev xs))"

text \<open>
  Lines 78 to 82. The key function is first called on every entry, in order. Then the keys
  are compared: with two entries or more every key takes part in a comparison, and comparing
  Python's \<open>None\<close> raises \<open>TypeError\<close>.
\<close>

fun cles_de_tri :: "entry list \<Rightarrow> py_error + struct_time option list" where
  "cles_de_tri [] = Inr []"
| "cles_de_tri (e # reste) =
     (case published_parsed e of
        None \<Rightarrow> Inl AttributeError
      | Some k \<Rightarrow> (case cles_de_tri reste of Inl err \<Rightarrow> Inl err | Inr ks \<Rightarrow> Inr (k # ks)))"

definition articles_tries :: "entry list \<Rightarrow> py_error + entry list" where
  "articles_tries entries =
     (case cles_de_tri entries of
        Inl err \<Rightarrow> Inl err
      | Inr ks \<Rightarrow>
          if 2 \<le> length ks \<and> None \<in> set ks then Inl TypeError
          else Inr (map snd (py_sorted_reverse fst (zip ks entries))))"

text \<open>Lines 84 to 94: the loop over the first five sorted entries.\<close>

definition alerte_de :: "entry \<Rightarrow> py_error + alerte" where
  "alerte_de e =
     (case title e of None \<Rightarrow> Inl AttributeError | Some t \<Rightarrow>
      case published e of None \<Rightarrow> Inl AttributeError | Some p \<Rightarrow>
      case summary e of None \<Rightarrow> Inl AttributeError | Some s \<Rightarrow>
      case link e of None \<Rightarrow> Inl AttributeError | Some l \<Rightarrow>
        Inr \<lparr>titre = t, date = p, description = s, lien = l\<rparr>)"

fun boucle_alertes :: "entry list \<Rightarrow> alerte list \<Rightarrow> py_error + alerte list" where
  "boucle_alertes [] alertes = Inr alertes"
| "boucle_alertes (e # reste) alertes =
     (case alerte_de e of
        Inl err \<Rightarrow> Inl err
      | Inr a \<Rightarrow> boucle_alertes reste (alertes @ [a]))"

definition get_alertes_certfr :: "entry list \<Rightarrow> py_error + alerte list" where
  "get_alertes_certfr entries =
     (case articles_tries entries of
        Inl err \<Rightarrow> Inl err
      | Inr tries \<Rightarrow> boucle_alertes (take 5 tries) [])"

text \<open>
  For the statements below: the parsed date of an entry, the entries that carry the four
  attributes read by the loop, and the feeds on which the function raises nothing: every
  entry has the attribute \<open>published_parsed\<close>, every date was parsed unless the feed has
  fewer than two entries, and the first five entries in sorted order carry the four
  attributes.
\<close>

definition date_de :: "entry \<Rightarrow> struct_time option" where
  "date_de e = (case published_parsed e of None \<Rightarrow> None | Some k \<Rightarrow> k)"

definition entree_affichable :: "entry \<Rightarrow> bool" where
  "entree_affichable e \<longleftrightarrow>
     title e \<noteq> None \<and> published e \<noteq> None \<and> summary e \<noteq> None \<and> link e \<noteq> None"

definition flux_exploitable :: "entry list \<Rightarrow> bool" where
  "flux_exploitable entries \<longleftrightarrow>
     (\<forall>e\<in>set entries. published_parsed e \<noteq> None) \<and>
     (2 \<le> length entries \<longrightarrow> (\<forall>e\<in>set entries. date_de e \<noteq> None)) \<and>
     (\<forall>e\<in>set (take 5 (py_sorted_reverse date_de entries)). entree_affichable e)"

text \<open>The feed of the example: the entry and the advisory of day \<open>j\<close>, and an entry without a date.\<close>

definition entree_du_jour :: "nat \<Rightarrow> entry" where
  "entree_du_jour j =
     \<lparr>title = Some (ascii ''avis '' @ [48 + j]),
      published = Some (ascii ''2024-01-0'' @ [48 + j]),
      published_parsed = Some (Some (2024, 1, int j, 0, 0, 0, 0, int j, 0)),
      summary = Some (ascii ''resume''),
      link = Some (ascii ''https://www.cert.ssi.gouv.fr/avis/'' @ [48 + j])\<rparr>"

definition alerte_du_jour :: "nat \<Rightarrow> alerte" where
  "alerte_du_jour j =
     \<lparr>titre = ascii ''avis '' @ [48 + j],
      date = ascii ''2024-01-0'' @ [48 + j],
      description = ascii ''resume'',
      lien = ascii ''https://www.cert.ssi.gouv.fr/avis/'' @ [48 + j]\<rparr>"

definition entree_sans_date :: entry where
  "entree_sans_date =
     \<lparr>title = Some (ascii ''avis''), published = None, published_parsed = None,
      summary = Some (ascii ''resume''), link = Some (ascii ''https://www.cert.ssi.gouv.fr/'')\<rparr>"

section \<open>Embedding, vector index and retrieval\<close>

text \<open>
  The embedding model and the FAISS index are libraries; what follows is what the calls of
  lines 58 to 67 do, as far as the retrieval functions depend on it. The coordinates of a
  vector and the distances are single-precision numbers in the libraries; here each finite
  single-precision number is the rational number it denotes.

  A \<open>SentenceTransformer\<close> model has a fixed output dimension and maps each text to a vector,
  independently of the other texts of the batch.
\<close>

type_synonym vecteur = "rat list"

record modele =
  dimension :: nat
  coordonnees :: "str \<Rightarrow> nat \<Rightarrow> rat"

text \<open>A numpy array of at most two dimensions: its shape and its rows.\<close>

record ndarray =
  shape :: "nat list"
  donnees :: "vecteur list"

definition plongement :: "modele \<Rightarrow> str \<Rightarrow> vecteur" where
  "plongement m texte = map (coordonnees m texte) [0..<dimension m]"

text \<open>
  \<open>model.encode(textes)\<close> stacks one row per text. For an empty list there is no row to take
  a dimension from: the array is \<open>np.asarray([])\<close>, of shape \<open>(0,)\<close>.
\<close>

definition model_encode :: "modele \<Rightarrow> str list \<Rightarrow> ndarray" where
  "model_encode m textes =
     (if textes = [] then \<lparr>shape = [0], donnees = []\<rparr>
      else \<lparr>shape = [length textes, dimension m], donnees = map (plongement m) textes\<rparr>)"

text \<open>
  \<open>faiss.IndexFlatL2(d)\<close>: the dimension and the stored vectors, in insertion order.
  \<open>index.add\<close> unpacks the shape of its argument into two numbers and asserts that the
  dimensions agree.
\<close>

record index_flat =
  index_d :: nat
  index_xb :: "vecteur list"

definition IndexFlatL2 :: "nat \<Rightarrow> index_flat" where
  "IndexFlatL2 n = \<lparr>index_d = n, index_xb = []\<rparr>"

definition index_add :: "index_flat \<Rightarrow> ndarray \<Rightarrow> py_error + index_flat" where
  "index_add idx x =
     (case shape x of
        [n, dx] \<Rightarrow>
          if dx = index_d idx then Inr (idx\<lparr>index_xb := index_xb idx @ donnees x\<rparr>)
          else Inl AssertionError
      | _ \<Rightarrow> Inl ValueError)"

text \<open>
  The index does not compare exact squared Euclidean distances. It compares the values that
  its distance kernel computes in single precision, and two vectors at different exact
  distances can get the same value. Which kernel runs (the scalar loop or a vectorised one,
  which adds the squares in another order) depends on the build of the library, so the
  kernel is an argument of the search: \<open>distance q y\<close> is the single-precision number that
  the index computes for the query \<open>q\<close> and the stored vector \<open>y\<close>. Nothing is assumed of it.
  It is a finite number: a computation that overflows is not modelled (the squared distance
  of two sentence embeddings is far from the single-precision range).

  \<open>index.search(x, k)\<close> asserts that the dimensions agree and that \<open>k\<close> is positive. For each
  query row it returns exactly \<open>k\<close> distances and \<open>k\<close> labels: the positions of the stored
  vectors with the smallest computed values, by increasing value, and, when the index holds
  fewer than \<open>k\<close> vectors, the label \<open>-1\<close> with the largest single-precision number as distance
  for the rest. A candidate replaces a kept one only if its value is strictly smaller, so
  of two vectors with the same value the one inserted first is preferred.
\<close>

type_synonym noyau = "vecteur \<Rightarrow> vecteur \<Rightarrow> rat"

definition FLT_MAX :: rat where
  "FLT_MAX = 340282346638528859811704183484516925440"

definition plus_proches :: "noyau \<Rightarrow> index_flat \<Rightarrow> nat \<Rightarrow> vecteur \<Rightarrow> rat list \<times> int list" where
  "plus_proches distance idx k q =
     (let proches = take k (sort_key (\<lambda>i. distance q (index_xb idx ! i))
                              [0..<length (index_xb idx)])
      in (map (\<lambda>i. distance q (index_xb idx ! i)) proches @ replicate (k - length proches) FLT_MAX,
          map int proches @ replicate (k - length proches) (- 1)))"

definition index_search ::
  "noyau \<Rightarrow> index_flat \<Rightarrow> ndarray \<Rightarrow> int \<Rightarrow> py_error + (rat list list \<times> int list list)" where
  "index_search distance idx x k =
     (case shape x of
        [n, dx] \<Rightarrow>
          if dx \<noteq> index_d idx then Inl AssertionError
          else if k \<le> 0 then Inl AssertionError
          else Inr (map (\<lambda>q. fst (plus_proches distance idx (nat k) q)) (donnees x),
                    map (\<lambda>q. snd (plus_proches distance idx (nat k) q)) (donnees x))
      | _ \<Rightarrow> Inl ValueError)"

text \<open>Lines 57 to 61.\<close>

definition construire_index :: "modele \<Rightarrow> str list \<Rightarrow> py_error + (index_flat \<times> ndarray)" where
  "construire_index m chs =
     (let vecteurs = model_encode m chs
      in case py_index (shape vecteurs) 1 of
           Inl err \<Rightarrow> Inl err
         | Inr dx \<Rightarrow>
             (case index_add (IndexFlatL2 dx) vecteurs of
                Inl err \<Rightarrow> Inl err
              | Inr idx \<Rightarrow> Inr (idx, vecteurs)))"

text \<open>
  Line 67, the comprehension \<open>[chunks[i] for i in indices[0]]\<close>: each label indexes the
  Python list, so a negative label counts from the end.
\<close>

fun extraire :: "str list \<Rightarrow> int list \<Rightarrow> py_error + str list" where
  "extraire chs [] = Inr []"
| "extraire chs (i # reste) =
     (case py_index chs i of
        Inl err \<Rightarrow> Inl err
      | Inr c \<Rightarrow> (case extraire chs reste of Inl err \<Rightarrow> Inl err | Inr cs \<Rightarrow> Inr (c # cs)))"

text \<open>Lines 64 to 68. The first argument is the kernel of the index that is searched.\<close>

definition rechercher_passages ::
  "noyau \<Rightarrow> modele \<Rightarrow> str \<Rightarrow> str list \<Rightarrow> index_flat \<Rightarrow> int \<Rightarrow> py_error + str list" where
  "rechercher_passages distance m question chs idx top_k =
     (let vecteur_question = model_encode m [question]
      in case index_search distance idx vecteur_question top_k of
           Inl err \<Rightarrow> Inl err
         | Inr (distances, indices) \<Rightarrow>
             (case py_index indices 0 of
                Inl err \<Rightarrow> Inl err
              | Inr ligne \<Rightarrow> extraire chs ligne))"

text \<open>
  Lines 147 to 149, the retrieval pipeline of the question handler, with the default
  parameters of the three functions.
\<close>

definition passages_pertinents ::
  "noyau \<Rightarrow> modele \<Rightarrow> entree list option \<Rightarrow> str \<Rightarrow> py_error + str list" where
  "passages_pertinents distance m dossier question =
     (case lire_et_chunker_pdfs dossier 500 100 of
        Inl err \<Rightarrow> Inl err
      | Inr r \<Rightarrow>
          (case construire_index m (chunks r) of
             Inl err \<Rightarrow> Inl err
           | Inr (idx, vecteurs) \<Rightarrow> rechercher_passages distance m question (chunks r) idx 3))"

subsection \<open>The reference kernel\<close>

text \<open>
  Rounding to single precision (IEEE 754 binary32, round to nearest, ties to even) for
  numbers within the finite range: a number of binary exponent \<open>e\<close> is rounded to a multiple
  of two to the power \<open>e - 23\<close>, and of two to the power \<open>-149\<close> below the normal range.
  \<open>exposant x\<close> is the binary exponent of a positive number, the integer part of its
  logarithm in base two.
\<close>

fun nb_bits :: "nat \<Rightarrow> nat" where
  "nb_bits n = (if n = 0 then 0 else Suc (nb_bits (n div 2)))"

declare nb_bits.simps [simp del]

definition exposant :: "rat \<Rightarrow> int" where
  "exposant x =
     (if 1 \<le> x then int (nb_bits (nat \<lfloor>x\<rfloor>)) - 1
      else - int (nb_bits (nat (\<lceil>1 / x\<rceil> - 1))))"

definition puissance2 :: "int \<Rightarrow> rat" where
  "puissance2 e = (if 0 \<le> e then 2 ^ nat e else 1 / 2 ^ nat (- e))"

definition arrondi_pair :: "rat \<Rightarrow> int" where
  "arrondi_pair x =
     (let n = \<lfloor>x\<rfloor>; r = x - of_int n
      in if r < 1 / 2 then n
         else if 1 / 2 < r then n + 1
         else if even n then n else n + 1)"

definition binary32 :: "rat \<Rightarrow> rat" where
  "binary32 x =
     (if x = 0 then 0
      else let u = puissance2 (max (exposant \<bar>x\<bar>) (- 126) - 23)
           in of_int (arrondi_pair (x / u)) * u)"

text \<open>
  The scalar loop of the library, \<open>fvec_L2sqr_ref\<close>: for each coordinate
  \<open>tmp = x[i] - y[i]; res += tmp * tmp\<close>, every operation rounded to single precision. In
  the examples below every product is a single-precision number, so that a build which
  fuses the multiplication and the addition computes the same values.
\<close>

fun somme_carres :: "rat \<Rightarrow> (rat \<times> rat) list \<Rightarrow> rat" where
  "somme_carres res [] = res"
| "somme_carres res ((a, b) # reste) =
     (let tmp = binary32 (a - b)
      in somme_carres (binary32 (res + binary32 (tmp * tmp))) reste)"

definition fvec_L2sqr_ref :: noyau where
  "fvec_L2sqr_ref x y = somme_carres 0 (zip x y)"


text \<open>
  Two small models for the examples. The first has two coordinates, computed from the
  length of the text. The second has one coordinate: 33554432, which is two to the power
  25, for the text \<open>q\<close>, and the length of the text minus one for any other text.
\<close>

definition modele_exemple :: modele where
  "modele_exemple = \<lparr>dimension = 2, coordonnees = (\<lambda>texte i. of_nat (length texte) + of_nat i)\<rparr>"




section \<open>JSON, the conversation log and the reply of the generation service\<close>

text \<open>
  A value as \<open>json.loads\<close> and \<open>response.json()\<close> build it. A number is kept as the text that
  denotes it. The pairs of an object are in the order of the text; Python keeps the last
  value given to a key, which is how the lookups below read the list.
\<close>

datatype json =
    JNull
  | JBool bool
  | JNum str
  | JStr str
  | JArr "json list"
  | JObj "(str \<times> json) list"

text \<open>
  \<open>json.dumps(echange, ensure_ascii=False)\<close> for the dictionary of lines 97 to 101, whose three
  values are strings. A string is written between double quotes; the double quote, the
  backslash and the characters below U+0020 are escaped, everything else is written as it
  is. The items are separated by \<open>", "\<close> and a key from its value by \<open>": "\<close>.
\<close>

definition hexc :: "nat \<Rightarrow> nat" where
  "hexc n = (if n < 10 then 48 + n else 87 + n)"

definition echapper :: "nat \<Rightarrow> str" where
  "echapper c =
     (if c = 34 then [92, 34]
      else if c = 92 then [92, 92]
      else if c = 10 then [92, 110]
      else if c = 13 then [92, 114]
      else if c = 9 then [92, 116]
      else if c = 8 then [92, 98]
      else if c = 12 then [92, 102]
      else if c < 32 then [92, 117, 48, 48, hexc (c div 16), hexc (c mod 16)]
      else [c])"

definition py_encode_basestring :: "str \<Rightarrow> str" where
  "py_encode_basestring s = [34] @ concat (map echapper s) @ [34]"

definition json_dumps_echange :: "str \<Rightarrow> str \<Rightarrow> str \<Rightarrow> str" where
  "json_dumps_echange horodatage question reponse =
     [123] @ py_encode_basestring (ascii ''timestamp'') @ [58, 32] @
       py_encode_basestring horodatage @ [44, 32] @
     py_encode_basestring (ascii ''question'') @ [58, 32] @
       py_encode_basestring question @ [44, 32] @
     py_encode_basestring (ascii ''reponse'') @ [58, 32] @
       py_encode_basestring reponse @ [125]"

text \<open>
  \<open>json.loads\<close>, as the scanner of CPython reads a text: white space is space, tab, line
  feed and carriage return; a string ends at the first unescaped double quote, may not
  hold a raw character below U+0020, and joins the escape of a high surrogate with a
  following escape of a low surrogate.
\<close>

definition est_blanc_json :: "nat \<Rightarrow> bool" where
  "est_blanc_json c \<longleftrightarrow> c = 32 \<or> c = 9 \<or> c = 10 \<or> c = 13"

definition sauter_blancs :: "str \<Rightarrow> str" where
  "sauter_blancs s = dropWhile est_blanc_json s"

definition hex_val :: "nat \<Rightarrow> nat option" where
  "hex_val c =
     (if 48 \<le> c \<and> c \<le> 57 then Some (c - 48)
      else if 97 \<le> c \<and> c \<le> 102 then Some (c - 87)
      else if 65 \<le> c \<and> c \<le> 70 then Some (c - 55)
      else None)"

definition hex4 :: "nat \<Rightarrow> nat \<Rightarrow> nat \<Rightarrow> nat \<Rightarrow> nat option" where
  "hex4 a b c d =
     (case (hex_val a, hex_val b, hex_val c, hex_val d) of
        (Some x, Some y, Some z, Some w) \<Rightarrow> Some (4096 * x + 256 * y + 16 * z + w)
      | _ \<Rightarrow> None)"

definition echappement_simple :: "nat \<Rightarrow> nat option" where
  "echappement_simple e =
     (if e = 34 then Some 34
      else if e = 92 then Some 92
      else if e = 47 then Some 47
      else if e = 98 then Some 8
      else if e = 102 then Some 12
      else if e = 110 then Some 10
      else if e = 114 then Some 13
      else if e = 116 then Some 9
      else None)"

definition paire_basse :: "str \<Rightarrow> (nat \<times> str) option" where
  "paire_basse s =
     (case s of
        b # u # h1 # h2 # h3 # h4 # reste \<Rightarrow>
          if b = 92 \<and> u = 117 then
            (case hex4 h1 h2 h3 h4 of
               Some v \<Rightarrow> if 56320 \<le> v \<and> v \<le> 57343 then Some (v, reste) else None
             | None \<Rightarrow> None)
          else None
      | _ \<Rightarrow> None)"

fun ajouter :: "nat \<Rightarrow> (str \<times> str) option \<Rightarrow> (str \<times> str) option" where
  "ajouter c None = None"
| "ajouter c (Some (s, reste)) = Some (c # s, reste)"

function scanstring :: "str \<Rightarrow> (str \<times> str) option" where
  "scanstring [] = None"
| "scanstring (c # cs) =
     (if c = 34 then Some ([], cs)
      else if c = 92 then
        (case cs of
           [] \<Rightarrow> None
         | e # cs1 \<Rightarrow>
             if e = 117 then
               (case cs1 of
                  h1 # h2 # h3 # h4 # cs2 \<Rightarrow>
                    (case hex4 h1 h2 h3 h4 of
                       None \<Rightarrow> None
                     | Some u \<Rightarrow>
                         if 55296 \<le> u \<and> u \<le> 56319 then
                           (case paire_basse cs2 of
                              Some (v, cs3) \<Rightarrow>
                                ajouter (65536 + (u - 55296) * 1024 + (v - 56320)) (scanstring cs3)
                            | None \<Rightarrow> ajouter u (scanstring cs2))
                         else ajouter u (scanstring cs2))
                | _ \<Rightarrow> None)
             else
               (case echappement_simple e of
                  None \<Rightarrow> None
                | Some x \<Rightarrow> ajouter x (scanstring cs1)))
      else if c < 32 then None
      else ajouter c (scanstring cs))"
  by pat_completeness auto
termination
  by (relation "measure length")
     (auto simp: paire_basse_def split: list.splits if_splits option.splits)

text \<open>
  A number is an optional minus sign, an integer part without leading zero, and an optional
  fraction and exponent, each taken only when complete.
\<close>

definition est_chiffre :: "nat \<Rightarrow> bool" where
  "est_chiffre c \<longleftrightarrow> 48 \<le> c \<and> c \<le> 57"

definition partie_entiere :: "str \<Rightarrow> (str \<times> str) option" where
  "partie_entiere s =
     (case s of
        [] \<Rightarrow> None
      | c # cs \<Rightarrow>
          if c = 48 then Some ([48], cs)
          else if 49 \<le> c \<and> c \<le> 57
          then Some (c # takeWhile est_chiffre cs, dropWhile est_chiffre cs)
          else None)"

definition partie_fraction :: "str \<Rightarrow> str \<times> str" where
  "partie_fraction s =
     (case s of
        p # d # cs \<Rightarrow>
          if p = 46 \<and> est_chiffre d
          then (p # d # takeWhile est_chiffre cs, dropWhile est_chiffre cs)
          else ([], s)
      | _ \<Rightarrow> ([], s))"

definition partie_exposant :: "str \<Rightarrow> str \<times> str" where
  "partie_exposant s =
     (case s of
        e # g # cs \<Rightarrow>
          if e = 101 \<or> e = 69 then
            (if est_chiffre g
             then (e # g # takeWhile est_chiffre cs, dropWhile est_chiffre cs)
             else if g = 43 \<or> g = 45 then
               (case cs of
                  d # ds \<Rightarrow>
                    if est_chiffre d
                    then (e # g # d # takeWhile est_chiffre ds, dropWhile est_chiffre ds)
                    else ([], s)
                | [] \<Rightarrow> ([], s))
             else ([], s))
          else ([], s)
      | _ \<Rightarrow> ([], s))"

definition match_number :: "str \<Rightarrow> (str \<times> str) option" where
  "match_number s =
     (let signe = (case s of c # cs \<Rightarrow> if c = 45 then [45] else [] | [] \<Rightarrow> [])
      in case partie_entiere (drop (length signe) s) of
           None \<Rightarrow> None
         | Some (ent, s2) \<Rightarrow>
             (let frac = partie_fraction s2; ex = partie_exposant (snd frac)
              in Some (signe @ ent @ fst frac @ fst ex, snd ex)))"

text \<open>
  A number without fraction and without exponent is converted with \<open>int\<close>, which raises
  \<open>ValueError\<close> when the text has more than 4300 digits (the default limit of CPython; the
  sign is not counted); any other number is converted with \<open>float\<close>, which accepts every
  length.
\<close>

definition est_entier :: "str \<Rightarrow> bool" where
  "est_entier x \<longleftrightarrow> 46 \<notin> set x \<and> 101 \<notin> set x \<and> 69 \<notin> set x"

definition nb_chiffres :: "str \<Rightarrow> nat" where
  "nb_chiffres x = length (filter est_chiffre x)"

text \<open>
  A value, the elements of an array after its opening bracket, and the members of an object
  after its opening brace. The result is the value read and the rest of the text, or the
  exception raised.

  The first argument bounds the number of nested calls. Every call reads at least one
  character before it makes another one, except the call that reads the first element of
  an array, which follows the opening bracket; so a text of \<open>n\<close> characters never needs more
  than \<open>2 * n + 1\<close> nested calls, which is what \<open>json_loads\<close> gives.

  The second argument is the room that the recursion limit of the interpreter leaves when
  \<open>json.loads\<close> is called, counted in nested arrays and objects: the scanner enters a
  recursive call at each opening bracket or brace, before it reads what follows, and
  raises \<open>RecursionError\<close> when there is no room left.
\<close>

definition commence_par :: "str \<Rightarrow> str \<Rightarrow> bool" where
  "commence_par p s \<longleftrightarrow> take (length p) s = p"

fun scan_once :: "nat \<Rightarrow> nat \<Rightarrow> str \<Rightarrow> py_error + (json \<times> str)"
  and parse_array :: "nat \<Rightarrow> nat \<Rightarrow> str \<Rightarrow> py_error + (json list \<times> str)"
  and parse_object :: "nat \<Rightarrow> nat \<Rightarrow> str \<Rightarrow> py_error + ((str \<times> json) list \<times> str)"
where
  "scan_once 0 p s = Inl JSONDecodeError"
| "scan_once (Suc n) p s =
     (case s of
        [] \<Rightarrow> Inl JSONDecodeError
      | c # cs \<Rightarrow>
          if c = 34 then
            (case scanstring cs of
               None \<Rightarrow> Inl JSONDecodeError
             | Some (x, r) \<Rightarrow> Inr (JStr x, r))
          else if c = 123 then
            (if p = 0 then Inl RecursionError
             else
               (case sauter_blancs cs of
                  [] \<Rightarrow> Inl JSONDecodeError
                | d # r \<Rightarrow>
                    if d = 125 then Inr (JObj [], r)
                    else (case parse_object n (p - 1) (d # r) of
                            Inl err \<Rightarrow> Inl err
                          | Inr (kvs, r1) \<Rightarrow> Inr (JObj kvs, r1))))
          else if c = 91 then
            (if p = 0 then Inl RecursionError
             else
               (case sauter_blancs cs of
                  [] \<Rightarrow> Inl JSONDecodeError
                | d # r \<Rightarrow>
                    if d = 93 then Inr (JArr [], r)
                    else (case parse_array n (p - 1) (d # r) of
                            Inl err \<Rightarrow> Inl err
                          | Inr (vs, r1) \<Rightarrow> Inr (JArr vs, r1))))
          else if commence_par (ascii ''null'') s then Inr (JNull, drop 4 s)
          else if commence_par (ascii ''true'') s then Inr (JBool True, drop 4 s)
          else if commence_par (ascii ''false'') s then Inr (JBool False, drop 5 s)
          else if commence_par (ascii ''NaN'') s then Inr (JNum (ascii ''NaN''), drop 3 s)
          else if commence_par (ascii ''Infinity'') s then Inr (JNum (ascii ''Infinity''), drop 8 s)
          else if commence_par (ascii ''-Infinity'') s then Inr (JNum (ascii ''-Infinity''), drop 9 s)
          else
            (case match_number s of
               None \<Rightarrow> Inl JSONDecodeError
             | Some (x, r) \<Rightarrow>
                 if est_entier x \<and> 4300 < nb_chiffres x then Inl ValueError
                 else Inr (JNum x, r)))"
| "parse_array 0 p s = Inl JSONDecodeError"
| "parse_array (Suc n) p s =
     (case scan_once n p s of
        Inl err \<Rightarrow> Inl err
      | Inr (v, r) \<Rightarrow>
          (case sauter_blancs r of
             [] \<Rightarrow> Inl JSONDecodeError
           | c # r1 \<Rightarrow>
               if c = 93 then Inr ([v], r1)
               else if c = 44 then
                 (case parse_array n p (sauter_blancs r1) of
                    Inl err \<Rightarrow> Inl err
                  | Inr (vs, r2) \<Rightarrow> Inr (v # vs, r2))
               else Inl JSONDecodeError))"
| "parse_object 0 p s = Inl JSONDecodeError"
| "parse_object (Suc n) p s =
     (case s of
        [] \<Rightarrow> Inl JSONDecodeError
      | c # cs \<Rightarrow>
          if c \<noteq> 34 then Inl JSONDecodeError
          else
            (case scanstring cs of
               None \<Rightarrow> Inl JSONDecodeError
             | Some (k, r) \<Rightarrow>
                 (case sauter_blancs r of
                    [] \<Rightarrow> Inl JSONDecodeError
                  | d # r1 \<Rightarrow>
                      if d \<noteq> 58 then Inl JSONDecodeError
                      else
                        (case scan_once n p (sauter_blancs r1) of
                           Inl err \<Rightarrow> Inl err
                         | Inr (v, r2) \<Rightarrow>
                             (case sauter_blancs r2 of
                                [] \<Rightarrow> Inl JSONDecodeError
                              | f # r3 \<Rightarrow>
                                  if f = 125 then Inr ([(k, v)], r3)
                                  else if f = 44 then
                                    (case parse_object n p (sauter_blancs r3) of
                                       Inl err \<Rightarrow> Inl err
                                     | Inr (kvs, r4) \<Rightarrow> Inr ((k, v) # kvs, r4))
                                  else Inl JSONDecodeError)))))"

text \<open>
  \<open>json.loads(s)\<close>: white space, one value, white space, and nothing else; anything else
  raises \<open>JSONDecodeError\<close>. The first argument is the room left by the recursion limit.
\<close>

definition json_loads :: "nat \<Rightarrow> str \<Rightarrow> py_error + json" where
  "json_loads profondeur s =
     (let s1 = sauter_blancs s
      in case scan_once (Suc (2 * length s1)) profondeur s1 of
           Inl err \<Rightarrow> Inl err
         | Inr (v, r) \<Rightarrow> if sauter_blancs r = [] then Inr v else Inl JSONDecodeError)"

text \<open>
  \<open>e[cle]\<close> with a string key: \<open>KeyError\<close> when a dictionary lacks the key, \<open>TypeError\<close> when
  \<open>e\<close> is not a dictionary.
\<close>

definition py_getitem :: "json \<Rightarrow> str \<Rightarrow> py_error + json" where
  "py_getitem e cle =
     (case e of
        JObj kvs \<Rightarrow> (case map_of (rev kvs) cle of None \<Rightarrow> Inl KeyError | Some v \<Rightarrow> Inr v)
      | _ \<Rightarrow> Inl TypeError)"

text \<open>
  The log file as the two functions find it: absent, holding bytes that are not valid
  UTF-8, or holding the UTF-8 encoding of a text.
\<close>

datatype journal =
    Absent
  | Illisible
  | Texte str

text \<open>
  Iterating over a file opened in text mode gives its lines, each with its terminator,
  which is read as a line feed whether the file has a line feed, a carriage return or both;
  a last line without terminator is given as it is. The first argument is the line being
  read.
\<close>

fun lignes :: "str \<Rightarrow> str \<Rightarrow> str list" where
  "lignes courante [] = (if courante = [] then [] else [courante])"
| "lignes courante [c] =
     (if c = 10 \<or> c = 13 then [courante @ [10]] else [courante @ [c]])"
| "lignes courante (c # d # reste) =
     (if c = 13 \<and> d = 10 then (courante @ [10]) # lignes [] reste
      else if c = 10 \<or> c = 13 then (courante @ [10]) # lignes [] (d # reste)
      else lignes (courante @ [c]) (d # reste))"

text \<open>
  Lines 107 to 120. The body of the \<open>try\<close>, lines 115 and 116, gives the pair to append or
  the exception raised; the bare \<open>except\<close> of line 117 goes on to the next line whatever the
  exception. The iteration of line 113 is outside the \<open>try\<close>: it decodes the file, and bytes
  that are not valid UTF-8 make it raise \<open>UnicodeDecodeError\<close>, which ends the function
  wherever the bytes are. The first argument of the three functions is the room left by the
  recursion limit when \<open>json.loads\<close> is called.
\<close>

definition corps_du_try :: "nat \<Rightarrow> str \<Rightarrow> py_error + (json \<times> json)" where
  "corps_du_try profondeur ligne =
     (case json_loads profondeur ligne of
        Inl err \<Rightarrow> Inl err
      | Inr e \<Rightarrow>
          (case py_getitem e (ascii ''question'') of
             Inl err \<Rightarrow> Inl err
           | Inr q \<Rightarrow>
               (case py_getitem e (ascii ''reponse'') of
                  Inl err \<Rightarrow> Inl err
                | Inr r \<Rightarrow> Inr (q, r))))"

fun boucle_lignes :: "nat \<Rightarrow> str list \<Rightarrow> (json \<times> json) list \<Rightarrow> (json \<times> json) list" where
  "boucle_lignes profondeur [] historique = historique"
| "boucle_lignes profondeur (ligne # reste) historique =
     (case corps_du_try profondeur ligne of
        Inl err \<Rightarrow> boucle_lignes profondeur reste historique
      | Inr echange \<Rightarrow> boucle_lignes profondeur reste (historique @ [echange]))"

definition charger_historique_persistant ::
  "nat \<Rightarrow> journal \<Rightarrow> py_error + (json \<times> json) list" where
  "charger_historique_persistant profondeur fichier =
     (case fichier of
        Absent \<Rightarrow> Inr []
      | Illisible \<Rightarrow> Inl UnicodeDecodeError
      | Texte contenu \<Rightarrow> Inr (boucle_lignes profondeur (lignes [] contenu) []))"

text \<open>
  Lines 96 to 104. The file is opened for appending with the UTF-8 encoding, which creates
  it when it does not exist and does not read what it holds; writing a text that holds a
  surrogate code point raises \<open>UnicodeEncodeError\<close> and writes nothing. The result is the
  exception, if any, and the file afterwards. Other input and output errors are not
  modelled.
\<close>

definition encodable_utf8 :: "str \<Rightarrow> bool" where
  "encodable_utf8 s \<longleftrightarrow> (\<forall>c\<in>set s. \<not> (55296 \<le> c \<and> c \<le> 57343))"

text \<open>
  \<open>datetime.now().isoformat()\<close>: the fields of the instant, zero-padded, with the
  microseconds only when they are not zero.
\<close>

record datetime =
  annee :: nat
  mois :: nat
  jour :: nat
  heure :: nat
  minute :: nat
  seconde :: nat
  microseconde :: nat

definition chiffre :: "nat \<Rightarrow> nat \<Rightarrow> nat" where
  "chiffre n rang = 48 + (n div rang) mod 10"

definition isoformat :: "datetime \<Rightarrow> str" where
  "isoformat t =
     [chiffre (annee t) 1000, chiffre (annee t) 100, chiffre (annee t) 10, chiffre (annee t) 1, 45,
      chiffre (mois t) 10, chiffre (mois t) 1, 45,
      chiffre (jour t) 10, chiffre (jour t) 1, 84,
      chiffre (heure t) 10, chiffre (heure t) 1, 58,
      chiffre (minute t) 10, chiffre (minute t) 1, 58,
      chiffre (seconde t) 10, chiffre (seconde t) 1] @
     (if microseconde t = 0 then []
      else [46, chiffre (microseconde t) 100000, chiffre (microseconde t) 10000,
            chiffre (microseconde t) 1000, chiffre (microseconde t) 100,
            chiffre (microseconde t) 10, chiffre (microseconde t) 1])"

definition ecrire_a_la_fin :: "journal \<Rightarrow> str \<Rightarrow> journal" where
  "ecrire_a_la_fin fichier texte =
     (case fichier of
        Absent \<Rightarrow> Texte texte
      | Illisible \<Rightarrow> Illisible
      | Texte contenu \<Rightarrow> Texte (contenu @ texte))"

definition sauvegarder_echange ::
  "datetime \<Rightarrow> str \<Rightarrow> str \<Rightarrow> journal \<Rightarrow> py_error option \<times> journal" where
  "sauvegarder_echange maintenant question reponse fichier =
     (let ligne = json_dumps_echange (isoformat maintenant) question reponse @ [10]
      in if encodable_utf8 ligne then (None, ecrire_a_la_fin fichier ligne)
         else (Some UnicodeEncodeError, ecrire_a_la_fin fichier []))"

text \<open>
  For the statements below: the last line of a text when it has no terminator (empty
  otherwise), and a log that is ready for a new record: it is absent, or its text is empty,
  ends with a line terminator, or has only spaces and tabs after its last terminator.
\<close>

definition derniere_ligne :: "str \<Rightarrow> str" where
  "derniere_ligne contenu = rev (takeWhile (\<lambda>c. c \<noteq> 10 \<and> c \<noteq> 13) (rev contenu))"

definition journal_pret :: "journal \<Rightarrow> bool" where
  "journal_pret fichier \<longleftrightarrow>
     (case fichier of
        Absent \<Rightarrow> True
      | Illisible \<Rightarrow> False
      | Texte contenu \<Rightarrow> (\<forall>c\<in>set (derniere_ligne contenu). c = 32 \<or> c = 9))"

text \<open>
  Line 168: \<open>response.json().get("response", ...)\<close>. The argument is the body of the reply as
  \<open>response.json()\<close> parsed it; \<open>get\<close> exists on a dictionary only.
\<close>

definition placeholder :: str where
  "placeholder =
     [10060] @ ascii '' Pas de r'' @ [233] @ ascii ''ponse g'' @ [233] @ ascii ''n'' @ [233] @
     ascii ''r'' @ [233] @ ascii ''e.''"

definition answer :: "json \<Rightarrow> py_error + json" where
  "answer corps =
     (case corps of
        JObj kvs \<Rightarrow>
          (case map_of (rev kvs) (ascii ''response'') of
             None \<Rightarrow> Inr (JStr placeholder)
           | Some v \<Rightarrow> Inr v)
      | _ \<Rightarrow> Inl AttributeError)"

text \<open>
  For the statements below: the dictionary that a line of the log denotes, the pair that the
  loop appends for a line, if any, and, for the examples, a line and an instant.
\<close>

definition dict_echange :: "str \<Rightarrow> str \<Rightarrow> str \<Rightarrow> json" where
  "dict_echange horodatage question reponse =
     JObj [(ascii ''timestamp'', JStr horodatage), (ascii ''question'', JStr question),
           (ascii ''reponse'', JStr reponse)]"

definition echange_lu :: "nat \<Rightarrow> str \<Rightarrow> (json \<times> json) option" where
  "echange_lu profondeur ligne =
     (case corps_du_try profondeur ligne of Inl err \<Rightarrow> None | Inr echange \<Rightarrow> Some echange)"

text \<open>
  A line whose \<open>question\<close> field is the string \<open>a\<close> and whose \<open>reponse\<close> field is the
  integer written with the given digits.
\<close>

definition ligne_entier :: "str \<Rightarrow> str" where
  "ligne_entier chiffres =
     [123] @ py_encode_basestring (ascii ''question'') @ [58, 32] @ py_encode_basestring [97] @
     [44, 32] @ py_encode_basestring (ascii ''reponse'') @ [58, 32] @ chiffres @ [125, 10]"

definition instant_exemple :: datetime where
  "instant_exemple =
     \<lparr>annee = 2025, mois = 1, jour = 2, heure = 3, minute = 4, seconde = 5, microseconde = 0\<rparr>"

section \<open>Properties of the chunker\<close>

lemma dropWhile_all_Nil:
  assumes "\<forall>c\<in>set (dropWhile P s). P c"
  shows "dropWhile P s = []"
proof (rule ccontr)
  assume ne: "dropWhile P s \<noteq> []"
  then have "\<not> P (hd (dropWhile P s))" by (rule hd_dropWhile)
  moreover have "hd (dropWhile P s) \<in> set (dropWhile P s)" using ne by simp
  ultimately show False using assms by blast
qed

lemma py_strip_Nil_iff: "py_strip s = [] \<longleftrightarrow> (\<forall>c\<in>set s. py_isspace c)"
proof
  assume "py_strip s = []"
  then have "\<forall>c\<in>set (dropWhile py_isspace s). py_isspace c"
    by (simp add: py_strip_def dropWhile_eq_Nil_conv)
  then have "dropWhile py_isspace s = []"
    by (rule dropWhile_all_Nil)
  then show "\<forall>c\<in>set s. py_isspace c"
    by (simp add: dropWhile_eq_Nil_conv)
next
  assume "\<forall>c\<in>set s. py_isspace c"
  then have d: "dropWhile py_isspace s = []"
    by (simp add: dropWhile_eq_Nil_conv)
  show "py_strip s = []"
    unfolding py_strip_def d by simp
qed

lemma garde_iff: "garde s \<longleftrightarrow> (\<exists>c\<in>set s. \<not> py_isspace c)"
  using py_strip_Nil_iff[of s] by (auto simp: garde_def)

lemma py_range_nonpos:
  assumes "s \<le> 0" "0 \<le> L"
  shows "py_range 0 L s = Inl ValueError \<or> py_range 0 L s = Inr []"
proof (cases "s = 0")
  case True then show ?thesis by (simp add: py_range_def)
next
  case False
  with assms have neg: "0 < - s" by simp
  have lt: "- L - s - 1 < - s" using assms(2) by simp
  have "(- L - s - 1) div (- s) \<le> 0"
  proof (cases "0 \<le> - L - s - 1")
    case True
    then show ?thesis using lt by (simp add: div_pos_pos_trivial)
  next
    case False
    then have "(- L - s - 1) div (- s) < 0"
      using neg by (simp add: div_neg_pos_less0)
    then show ?thesis by simp
  qed
  with neg show ?thesis by (simp add: py_range_def)
qed

lemma decouper_eq:
  "decouper texte taille f ps e =
     e\<lparr>chunks := chunks e @ tranches texte taille ps,
       metadatas := metadatas e @ replicate (length (tranches texte taille ps)) f\<rparr>"
  by (induction ps arbitrary: e) (simp_all add: tranches_def Let_def replicate_app_Cons_same)

lemma traiter_fichier_chunks:
  "chunks (traiter_fichier t c ent e) = chunks e @ chunks_du_fichier t c ent"
  by (simp add: traiter_fichier_def chunks_du_fichier_def Let_def decouper_eq
      split: option.splits sum.splits)

lemma traiter_fichier_metadatas:
  "metadatas (traiter_fichier t c ent e) =
     metadatas e @ replicate (length (chunks_du_fichier t c ent)) (fst ent)"
  by (simp add: traiter_fichier_def chunks_du_fichier_def Let_def decouper_eq
      split: option.splits sum.splits)

lemma parcourir_chunks:
  "chunks (parcourir t c ents e) = chunks e @ concat (map (chunks_du_fichier t c) ents)"
  by (induction ents arbitrary: e) (simp_all add: traiter_fichier_chunks)

lemma parcourir_metadatas:
  "metadatas (parcourir t c ents e) =
     metadatas e @ concat (map (\<lambda>ent. replicate (length (chunks_du_fichier t c ent)) (fst ent)) ents)"
  by (induction ents arbitrary: e) (simp_all add: traiter_fichier_metadatas)

lemma zip_concat_origine:
  "zip (concat (map f ents)) (concat (map (\<lambda>ent. replicate (length (f ent)) (g ent)) ents)) =
     concat (map (\<lambda>ent. map (\<lambda>c. (c, g ent)) (f ent)) ents)"
proof (induction ents)
  case Nil
  show ?case by simp
next
  case (Cons ent ents)
  have "zip (f ent) (replicate (length (f ent)) (g ent)) = map (\<lambda>c. (c, g ent)) (f ent)"
    by (simp add: zip_replicate2)
  with Cons show ?case by simp
qed

lemma chunks_du_fichier_elem:
  assumes "c \<in> set (chunks_du_fichier t v ent)"
  shows "est_pdf (fst ent) \<and> (\<exists>pages positions p. snd ent = Some pages \<and>
           py_range 0 (int (length (concat pages))) (t - v) = Inr positions \<and>
           p \<in> set positions \<and> c = py_slice (concat pages) p (p + t) \<and> garde c)"
proof -
  from assms have pdf: "est_pdf (fst ent)"
    by (cases "est_pdf (fst ent)") (simp_all add: chunks_du_fichier_def)
  from assms pdf obtain pages where pages: "snd ent = Some pages"
    by (cases "snd ent") (simp_all add: chunks_du_fichier_def)
  from assms pdf pages obtain positions
    where pos: "py_range 0 (int (length (concat pages))) (t - v) = Inr positions"
    by (cases "py_range 0 (int (length (concat pages))) (t - v)")
       (simp_all add: chunks_du_fichier_def)
  from assms pdf pages pos have "c \<in> set (tranches (concat pages) t positions)"
    by (simp add: chunks_du_fichier_def)
  then obtain p where "p \<in> set positions" "c = py_slice (concat pages) p (p + t)" "garde c"
    by (auto simp: tranches_def)
  with pdf pages pos show ?thesis by blast
qed

lemma py_slice_window:
  assumes "0 \<le> i" "0 \<le> t"
  shows "py_slice xs i (i + t) = take (nat t) (drop (nat i) xs)"
proof (cases "i < int (length xs)")
  case True
  with assms show ?thesis
    by (simp add: py_slice_def py_borne_def Let_def min_def) 
next
  case False
  with assms show ?thesis
    by (simp add: py_slice_def py_borne_def Let_def min_def)
qed

lemma tranche_500_eq: "tranche_500 texte j = take 500 (drop (400 * j) texte)"
proof -
  have "nat (400 * int j) = 400 * j" by (simp add: nat_mult_distrib)
  then show ?thesis
    unfolding tranche_500_def using py_slice_window[of "400 * int j" 500 texte] by simp
qed

lemma py_range_400:
  "py_range 0 (int (length texte)) (500 - 100) =
     Inr (map (\<lambda>k. int k * 400) [0..<nb_tranches texte])"
proof -
  have "(399 + int (length texte)) div 400 = int ((length texte + 399) div 400)"
    by (simp add: zdiv_int add.commute)
  then show ?thesis by (simp add: py_range_def nb_tranches_def)
qed

lemma tranches_500:
  "tranches texte 500 (map (\<lambda>k. int k * 400) [0..<n]) = filter garde (map (tranche_500 texte) [0..<n])"
proof -
  have "(\<lambda>k. py_slice texte (int k * 400) (int k * 400 + 500)) = tranche_500 texte"
    by (rule ext) (simp add: tranche_500_def mult.commute)
  then show ?thesis by (simp add: tranches_def comp_def)
qed

lemma lire_un_document:
  assumes "est_pdf fichier"
  shows "lire_et_chunker_pdfs (Some [(fichier, Some pages)]) 500 100 =
     Inr \<lparr>chunks = filter garde (map (tranche_500 (concat pages)) [0..<nb_tranches (concat pages)]),
          metadatas = replicate (length (filter garde (map (tranche_500 (concat pages))
                         [0..<nb_tranches (concat pages)]))) fichier,
          avertissements = []\<rparr>"
  using assms py_range_400[of "concat pages"]
  by (simp add: lire_et_chunker_pdfs_def traiter_fichier_def Let_def decouper_eq tranches_500)

lemma length_tranche_500:
  "length (tranche_500 texte j) = min 500 (length texte - 400 * j)"
  by (simp add: tranche_500_eq)

lemma nb_tranches_less: "j < nb_tranches texte \<longleftrightarrow> 400 * j < length texte"
  unfolding nb_tranches_def by arith

lemma chevauchement_tranches:
  "drop 400 (tranche_500 texte j) =
     take (min 100 (length texte - 400 * Suc j)) (tranche_500 texte (Suc j))"
proof -
  have "drop 400 (tranche_500 texte j) = take 100 (drop (400 * Suc j) texte)"
    by (simp add: tranche_500_eq drop_take add.commute)
  also have "\<dots> = take (min 100 (length texte - 400 * Suc j)) (tranche_500 texte (Suc j))"
    by (simp add: tranche_500_eq min_def)
  finally show ?thesis .
qed

text \<open>
  Claim C10. For every listing of the corpus directory, \<open>lire_et_chunker_pdfs\<close> returns, and
  the two lists it returns have the same length. Paired position by position they are the
  chunks of each directory entry, in listing order, each with the name of that entry; so
  for every index \<open>i\<close> the name \<open>metadatas[i]\<close> is a PDF entry of the directory that was read
  successfully, and \<open>chunks[i]\<close> is one of the slices the loop takes from its text. Entries
  whose extraction fails contribute nothing to either list.
\<close>

theorem lire_et_chunker_pdfs_origine:
  "\<exists>r. lire_et_chunker_pdfs (Some entrees) taille_chunk chevauchement = Inr r \<and>
     length (metadatas r) = length (chunks r) \<and>
     zip (chunks r) (metadatas r) =
       concat (map (\<lambda>ent. map (\<lambda>c. (c, fst ent)) (chunks_du_fichier taille_chunk chevauchement ent))
                 entrees) \<and>
     (\<forall>i<length (chunks r). \<exists>pages positions p.
        (metadatas r ! i, Some pages) \<in> set entrees \<and> est_pdf (metadatas r ! i) \<and>
        py_range 0 (int (length (concat pages))) (taille_chunk - chevauchement) = Inr positions \<and>
        p \<in> set positions \<and> chunks r ! i = py_slice (concat pages) p (p + taille_chunk))"
proof -
  define r where "r = parcourir taille_chunk chevauchement entrees
                        \<lparr>chunks = [], metadatas = [], avertissements = []\<rparr>"
  have res: "lire_et_chunker_pdfs (Some entrees) taille_chunk chevauchement = Inr r"
    by (simp add: lire_et_chunker_pdfs_def r_def)
  have c: "chunks r = concat (map (chunks_du_fichier taille_chunk chevauchement) entrees)"
    by (simp add: r_def parcourir_chunks)
  have m: "metadatas r = concat (map (\<lambda>ent. replicate
             (length (chunks_du_fichier taille_chunk chevauchement ent)) (fst ent)) entrees)"
    by (simp add: r_def parcourir_metadatas)
  have len: "length (metadatas r) = length (chunks r)"
    unfolding c m by (induction entrees) simp_all
  have z: "zip (chunks r) (metadatas r) =
       concat (map (\<lambda>ent. map (\<lambda>c. (c, fst ent)) (chunks_du_fichier taille_chunk chevauchement ent))
                 entrees)"
    unfolding c m by (rule zip_concat_origine)
  have idx: "\<exists>pages positions p.
        (metadatas r ! i, Some pages) \<in> set entrees \<and> est_pdf (metadatas r ! i) \<and>
        py_range 0 (int (length (concat pages))) (taille_chunk - chevauchement) = Inr positions \<and>
        p \<in> set positions \<and> chunks r ! i = py_slice (concat pages) p (p + taille_chunk)"
    if i: "i < length (chunks r)" for i
  proof -
    from i len have "(chunks r ! i, metadatas r ! i) \<in> set (zip (chunks r) (metadatas r))"
      by (metis in_set_zip fst_conv snd_conv)
    then obtain ent where ent: "ent \<in> set entrees" "metadatas r ! i = fst ent"
        "chunks r ! i \<in> set (chunks_du_fichier taille_chunk chevauchement ent)"
      unfolding z by auto
    from chunks_du_fichier_elem[OF ent(3)] obtain pages positions p where
      "est_pdf (fst ent)" "snd ent = Some pages"
      "py_range 0 (int (length (concat pages))) (taille_chunk - chevauchement) = Inr positions"
      "p \<in> set positions" "chunks r ! i = py_slice (concat pages) p (p + taille_chunk)"
      by blast
    moreover from this ent have "(metadatas r ! i, Some pages) \<in> set entrees"
      by (metis prod.collapse)
    ultimately show ?thesis using ent(2) by auto
  qed
  from res len z idx show ?thesis by blast
qed

theorem lire_et_chunker_pdfs_origine_witness:
  "\<exists>r. lire_et_chunker_pdfs (Some [([97, 46, 112, 100, 102], Some [[97, 98], [99]]),
                                    ([98, 46, 112, 100, 102], None)]) 2 1 = Inr r \<and>
       chunks r = [[97, 98], [98, 99], [99]] \<and>
       metadatas r = [[97, 46, 112, 100, 102], [97, 46, 112, 100, 102], [97, 46, 112, 100, 102]] \<and>
       2 < length (chunks r) \<and>
       (\<exists>pages positions p.
          (metadatas r ! 2, Some pages) \<in> set [([97, 46, 112, 100, 102], Some [[97, 98], [99]]),
                                    ([98, 46, 112, 100, 102], None)] \<and>
          est_pdf (metadatas r ! 2) \<and>
          py_range 0 (int (length (concat pages))) (2 - 1) = Inr positions \<and>
          p \<in> set positions \<and> chunks r ! 2 = py_slice (concat pages) p (p + 2))"
proof -
  let ?d = "[([97, 46, 112, 100, 102], Some [[97, 98], [99]]), ([98, 46, 112, 100, 102], None)]"
  have ev: "lire_et_chunker_pdfs (Some ?d) 2 1 =
      Inr \<lparr>chunks = [[97, 98], [98, 99], [99]],
       metadatas = [[97, 46, 112, 100, 102], [97, 46, 112, 100, 102], [97, 46, 112, 100, 102]],
       avertissements = [([98, 46, 112, 100, 102], ExtractionError)]\<rparr>"
    by (simp add: lire_et_chunker_pdfs_def traiter_fichier_def est_pdf_def py_endswith_def
        py_lower_def ascii_def py_range_def py_slice_def py_borne_def garde_def py_strip_def
        py_isspace_def Let_def upt_rec)
  from lire_et_chunker_pdfs_origine[of ?d 2 1] obtain r where
    r: "lire_et_chunker_pdfs (Some ?d) 2 1 = Inr r" and
    i: "\<forall>i<length (chunks r). \<exists>pages positions p.
        (metadatas r ! i, Some pages) \<in> set ?d \<and> est_pdf (metadatas r ! i) \<and>
        py_range 0 (int (length (concat pages))) (2 - 1) = Inr positions \<and>
        p \<in> set positions \<and> chunks r ! i = py_slice (concat pages) p (p + 2)"
    by blast
  from r ev have c: "chunks r = [[97, 98], [98, 99], [99]]"
    and m: "metadatas r = [[97, 46, 112, 100, 102], [97, 46, 112, 100, 102], [97, 46, 112, 100, 102]]"
    by auto
  from c have "2 < length (chunks r)" by simp
  with i r c m show ?thesis by blast
qed

lemma traiter_fichier_sans_pas:
  assumes "t \<le> v"
  shows "traiter_fichier t v ent e =
           e\<lparr>avertissements := avertissements e @ avertis_sans_pas t v ent\<rparr>"
proof (cases "est_pdf (fst ent)")
  case False
  then show ?thesis by (simp add: traiter_fichier_def avertis_sans_pas_def)
next
  case pdf: True
  show ?thesis
  proof (cases "snd ent")
    case None
    with pdf show ?thesis by (simp add: traiter_fichier_def avertis_sans_pas_def)
  next
    case (Some pages)
    show ?thesis
    proof (cases "t = v")
      case True
      with pdf Some show ?thesis
        by (simp add: traiter_fichier_def avertis_sans_pas_def py_range_def)
    next
      case False
      with assms have neg: "t - v < 0" by simp
      have "py_range 0 (int (length (concat pages))) (t - v) = Inl ValueError \<or>
        py_range 0 (int (length (concat pages))) (t - v) = Inr []"
        using assms by (intro py_range_nonpos) simp_all
      with neg have "py_range 0 (int (length (concat pages))) (t - v) = Inr []"
        by (simp add: py_range_def)
      with pdf Some False show ?thesis
        by (simp add: traiter_fichier_def avertis_sans_pas_def)
    qed
  qed
qed

lemma parcourir_sans_pas:
  assumes "t \<le> v"
  shows "parcourir t v ents e =
           e\<lparr>avertissements := avertissements e @ concat (map (avertis_sans_pas t v) ents)\<rparr>"
  by (induction ents arbitrary: e) (simp_all add: traiter_fichier_sans_pas[OF assms])

text \<open>
  Claim C2, amended. For every chunk size and overlap with overlap \<open>\<ge>\<close> chunk size and every
  directory listing, \<open>lire_et_chunker_pdfs\<close> produces no chunk: it returns two empty lists.
  Nothing is raised to the caller. When the two are equal, the zero step makes \<open>range\<close> raise
  for each readable PDF, which the \<open>except\<close> clause of the loop turns into a warning for that
  file; when the overlap is larger, the range is empty and only unreadable files are warned
  about.
\<close>

theorem chevauchement_sans_chunks:
  assumes "taille_chunk \<le> chevauchement"
  shows "lire_et_chunker_pdfs (Some entrees) taille_chunk chevauchement =
     Inr \<lparr>chunks = [], metadatas = [],
          avertissements = concat (map (avertis_sans_pas taille_chunk chevauchement) entrees)\<rparr>"
  by (simp add: lire_et_chunker_pdfs_def parcourir_sans_pas[OF assms])

theorem chevauchement_sans_chunks_witness:
  "(2::int) \<le> 2 \<and>
   lire_et_chunker_pdfs (Some [([97, 46, 112, 100, 102], Some [[97, 98], [99]]),
                               ([98, 46, 112, 100, 102], None)]) 2 2 =
     Inr \<lparr>chunks = [], metadatas = [],
          avertissements = [([97, 46, 112, 100, 102], ValueError),
                            ([98, 46, 112, 100, 102], ExtractionError)]\<rparr>"
proof -
  have h: "(2::int) \<le> 2" by simp
  have pdf: "est_pdf [97, 46, 112, 100, 102]" "est_pdf [98, 46, 112, 100, 102]"
    by (simp_all add: est_pdf_def py_endswith_def py_lower_def ascii_def)
  show ?thesis
    using chevauchement_sans_chunks[OF h,
        of "[([97, 46, 112, 100, 102], Some [[97, 98], [99]]), ([98, 46, 112, 100, 102], None)]"] pdf
    by (simp add: avertis_sans_pas_def)
qed

text \<open>
  Claim C2 as stated asks for the configuration to be rejected. With a chunk size of 2 and an
  overlap of 3 the function returns normally, with no chunk and no warning.
\<close>

theorem chevauchement_non_rejete:
  "(2::int) \<le> 3 \<and>
   lire_et_chunker_pdfs (Some [([97, 46, 112, 100, 102], Some [[97, 98], [99]])]) 2 3 =
     Inr \<lparr>chunks = [], metadatas = [], avertissements = []\<rparr>"
  by (simp add: lire_et_chunker_pdfs_def traiter_fichier_def est_pdf_def py_endswith_def
      py_lower_def ascii_def py_range_def Let_def)

lemma est_pdf_a_pdf: "est_pdf [97, 46, 112, 100, 102]"
  by (simp add: est_pdf_def py_endswith_def py_lower_def ascii_def)

lemma set_tranche_500: "set (tranche_500 texte j) \<subseteq> set texte"
proof -
  have "set (take 500 (drop (400 * j) texte)) \<subseteq> set (drop (400 * j) texte)"
    by (rule set_take_subset)
  also have "\<dots> \<subseteq> set texte" by (rule set_drop_subset)
  finally show ?thesis by (simp add: tranche_500_eq)
qed

lemma lire_texte_blanc:
  assumes "est_pdf fichier" and "\<forall>x\<in>set (concat pages). py_isspace x"
  shows "lire_et_chunker_pdfs (Some [(fichier, Some pages)]) 500 100 =
           Inr \<lparr>chunks = [], metadatas = [], avertissements = []\<rparr>"
proof -
  have "\<not> garde (tranche_500 (concat pages) j)" for j
    using assms(2) set_tranche_500[of "concat pages" j] by (auto simp: garde_iff)
  then have "filter garde (map (tranche_500 (concat pages)) [0..<nb_tranches (concat pages)]) = []"
    by (simp add: filter_empty_conv)
  with lire_un_document[OF assms(1), of pages] show ?thesis by simp
qed

lemma garde_replicate: "0 < k \<Longrightarrow> garde (replicate k 65)"
  by (simp add: garde_iff py_isspace_def)

lemma lire_850:
  "lire_et_chunker_pdfs (Some [([97, 46, 112, 100, 102], Some [replicate 850 65])]) 500 100 =
     Inr \<lparr>chunks = [replicate 500 65, replicate 450 65, replicate 50 65],
          metadatas = [[97, 46, 112, 100, 102], [97, 46, 112, 100, 102], [97, 46, 112, 100, 102]],
          avertissements = []\<rparr>"
proof -
  have n: "nb_tranches (replicate 850 (65::nat)) = 3" by (simp add: nb_tranches_def)
  have u: "[0..<3] = [0, Suc 0, Suc (Suc 0)]" by (simp add: upt_rec)
  have t: "tranche_500 (replicate 850 65) 0 = replicate 500 65"
    "tranche_500 (replicate 850 65) (Suc 0) = replicate 450 65"
    "tranche_500 (replicate 850 65) (Suc (Suc 0)) = replicate 50 65"
    by (simp_all add: tranche_500_eq)
  from lire_un_document[OF est_pdf_a_pdf, of "[replicate 850 65]"] show ?thesis
    by (simp add: n u t garde_replicate)
qed

text \<open>
  Claim C4 as stated covers every text of 600 characters. A text of 600 spaces gives no chunk
  at all: both slices are dropped by the guard of line 47.
\<close>

theorem texte_600_blanc:
  "length (concat [replicate 600 (32::nat)]) = 600 \<and>
   lire_et_chunker_pdfs (Some [([97, 46, 112, 100, 102], Some [replicate 600 32])]) 500 100 =
     Inr \<lparr>chunks = [], metadatas = [], avertissements = []\<rparr>"
proof -
  have "\<forall>x\<in>set (concat [replicate 600 (32::nat)]). py_isspace x"
    by (simp add: py_isspace_def)
  with lire_texte_blanc[OF est_pdf_a_pdf] show ?thesis by simp
qed

text \<open>
  Claim C4, amended. For a corpus of one PDF whose extracted text has exactly 600 characters,
  and whose slices \<open>[0:500]\<close> and \<open>[400:600]\<close> each hold a character that is not white space
  (as in the text of 600 letters A), chunking with a chunk size of 500 and an overlap of 100
  produces exactly two chunks, the slice \<open>[0:500]\<close> of length 500 and the slice \<open>[400:600]\<close>
  of length 200, both tagged with the file name.
\<close>

theorem texte_600:
  assumes "est_pdf fichier" and "length (concat pages) = 600"
    and "\<exists>x\<in>set (py_slice (concat pages) 0 500). \<not> py_isspace x"
    and "\<exists>x\<in>set (py_slice (concat pages) 400 600). \<not> py_isspace x"
  shows "lire_et_chunker_pdfs (Some [(fichier, Some pages)]) 500 100 =
           Inr \<lparr>chunks = [py_slice (concat pages) 0 500, py_slice (concat pages) 400 600],
                metadatas = [fichier, fichier], avertissements = []\<rparr> \<and>
         length (py_slice (concat pages) 0 500) = 500 \<and>
         length (py_slice (concat pages) 400 600) = 200"
proof -
  let ?t = "concat pages"
  have n: "nb_tranches ?t = 2" using assms(2) by (simp add: nb_tranches_def)
  have u: "[0..<2] = [0, Suc 0]" by (simp add: upt_rec)
  have t0: "tranche_500 ?t 0 = py_slice ?t 0 500" by (simp add: tranche_500_def)
  have t1: "tranche_500 ?t (Suc 0) = py_slice ?t 400 600"
    using assms(2) by (simp add: tranche_500_def py_slice_def py_borne_def)
  have g: "garde (py_slice ?t 0 500)" "garde (py_slice ?t 400 600)"
    using assms(3,4) by (simp_all add: garde_iff)
  have l: "length (py_slice ?t 0 500) = 500" "length (py_slice ?t 400 600) = 200"
    using assms(2) by (simp_all add: py_slice_def py_borne_def)
  from lire_un_document[OF assms(1), of pages] g l show ?thesis
    by (simp add: n u t0 t1)
qed

theorem texte_600_witness:
  "est_pdf [97, 46, 112, 100, 102] \<and> length (concat [replicate 600 (65::nat)]) = 600 \<and>
   (\<exists>x\<in>set (py_slice (concat [replicate 600 65]) 0 500). \<not> py_isspace x) \<and>
   (\<exists>x\<in>set (py_slice (concat [replicate 600 65]) 400 600). \<not> py_isspace x) \<and>
   lire_et_chunker_pdfs (Some [([97, 46, 112, 100, 102], Some [replicate 600 65])]) 500 100 =
     Inr \<lparr>chunks = [replicate 500 65, replicate 200 65],
          metadatas = [[97, 46, 112, 100, 102], [97, 46, 112, 100, 102]],
          avertissements = []\<rparr>"
proof -
  have l: "length (concat [replicate 600 (65::nat)]) = 600" by simp
  have s: "py_slice (concat [replicate 600 (65::nat)]) 0 500 = replicate 500 65"
    "py_slice (concat [replicate 600 (65::nat)]) 400 600 = replicate 200 65"
    by (simp_all add: py_slice_def py_borne_def)
  have a: "\<exists>x\<in>set (py_slice (concat [replicate 600 65]) 0 500). \<not> py_isspace x"
    unfolding s by (simp add: py_isspace_def)
  have b: "\<exists>x\<in>set (py_slice (concat [replicate 600 65]) 400 600). \<not> py_isspace x"
    unfolding s by (simp add: py_isspace_def)
  from texte_600[OF est_pdf_a_pdf l a b] est_pdf_a_pdf l a b show ?thesis
    unfolding s by simp
qed

text \<open>
  Claim C5 as stated fails in two places. A text of 850 letters gives chunks of length 500,
  450 and 50: the chunk before the last one is shorter than 500 as well. A text of 4000 spaces
  gives no chunk, while \<open>4000 / 400\<close> rounded up is 10.
\<close>

theorem chunker_500_100_ecarts:
  "lire_et_chunker_pdfs (Some [([97, 46, 112, 100, 102], Some [replicate 850 65])]) 500 100 =
     Inr \<lparr>chunks = [replicate 500 65, replicate 450 65, replicate 50 65],
          metadatas = [[97, 46, 112, 100, 102], [97, 46, 112, 100, 102], [97, 46, 112, 100, 102]],
          avertissements = []\<rparr> \<and>
   length (replicate 450 (65::nat)) < 500 \<and>
   lire_et_chunker_pdfs (Some [([97, 46, 112, 100, 102], Some [replicate 4000 32])]) 500 100 =
     Inr \<lparr>chunks = [], metadatas = [], avertissements = []\<rparr> \<and>
   nb_tranches (replicate 4000 32) = 10"
proof -
  have "\<forall>x\<in>set (concat [replicate 4000 (32::nat)]). py_isspace x"
    by (simp add: py_isspace_def)
  with lire_texte_blanc[OF est_pdf_a_pdf] lire_850 show ?thesis
    by (simp add: nb_tranches_def)
qed

text \<open>
  Claim C5, amended. For a corpus of one PDF whose extracted text has length \<open>L\<close>, chunked with
  a chunk size of 500 and an overlap of 100: the loop takes the slices \<open>texte[400j : 400j+500]\<close>
  for \<open>j\<close> below \<open>L / 400\<close> rounded up; slice \<open>j\<close> is not empty and has length
  \<open>min(500, L - 400j)\<close>; the chunks returned are the slices that are not white space only, in
  order, so every chunk has at most 500 characters and holds a character that is not white
  space; their number is at most \<open>L / 400\<close> rounded up, and equal to it when no slice is
  white space only; and each slice ends with the first \<open>min(100, L - 400(j+1))\<close> characters of
  the next slice.
\<close>

theorem chunker_500_100:
  assumes "est_pdf fichier"
  shows "lire_et_chunker_pdfs (Some [(fichier, Some pages)]) 500 100 =
           Inr \<lparr>chunks = filter garde (map (tranche_500 (concat pages))
                             [0..<nb_tranches (concat pages)]),
                metadatas = replicate (length (filter garde (map (tranche_500 (concat pages))
                             [0..<nb_tranches (concat pages)]))) fichier,
                avertissements = []\<rparr> \<and>
         (\<forall>j<nb_tranches (concat pages).
            length (tranche_500 (concat pages) j) = min 500 (length (concat pages) - 400 * j) \<and>
            0 < length (tranche_500 (concat pages) j)) \<and>
         (\<forall>c\<in>set (filter garde (map (tranche_500 (concat pages))
                             [0..<nb_tranches (concat pages)])).
            length c \<le> 500 \<and> (\<exists>x\<in>set c. \<not> py_isspace x)) \<and>
         length (filter garde (map (tranche_500 (concat pages))
                             [0..<nb_tranches (concat pages)])) \<le> nb_tranches (concat pages) \<and>
         ((\<forall>j<nb_tranches (concat pages). garde (tranche_500 (concat pages) j)) \<longrightarrow>
            length (filter garde (map (tranche_500 (concat pages))
                             [0..<nb_tranches (concat pages)])) = nb_tranches (concat pages)) \<and>
         (\<forall>j. Suc j < nb_tranches (concat pages) \<longrightarrow>
            drop 400 (tranche_500 (concat pages) j) =
              take (min 100 (length (concat pages) - 400 * Suc j))
                (tranche_500 (concat pages) (Suc j)) \<and>
            length (drop 400 (tranche_500 (concat pages) j)) =
              min 100 (length (concat pages) - 400 * Suc j))"
proof -
  let ?t = "concat pages"
  let ?n = "nb_tranches ?t"
  let ?cs = "filter garde (map (tranche_500 ?t) [0..<?n])"
  have a: "lire_et_chunker_pdfs (Some [(fichier, Some pages)]) 500 100 =
           Inr \<lparr>chunks = ?cs, metadatas = replicate (length ?cs) fichier, avertissements = []\<rparr>"
    using assms by (rule lire_un_document)
  have b: "\<forall>j<?n. length (tranche_500 ?t j) = min 500 (length ?t - 400 * j) \<and>
            0 < length (tranche_500 ?t j)"
    by (simp add: length_tranche_500 nb_tranches_less)
  have c: "\<forall>c\<in>set ?cs. length c \<le> 500 \<and> (\<exists>x\<in>set c. \<not> py_isspace x)"
    by (auto simp: length_tranche_500 garde_iff)
  have d: "length ?cs \<le> ?n"
    using length_filter_le[of garde "map (tranche_500 ?t) [0..<?n]"] by simp
  have e: "(\<forall>j<?n. garde (tranche_500 ?t j)) \<longrightarrow> length ?cs = ?n"
  proof
    assume "\<forall>j<?n. garde (tranche_500 ?t j)"
    then have "filter garde (map (tranche_500 ?t) [0..<?n]) = map (tranche_500 ?t) [0..<?n]"
      by (simp add: filter_id_conv)
    then show "length ?cs = ?n" by simp
  qed
  have f: "\<forall>j. Suc j < ?n \<longrightarrow>
            drop 400 (tranche_500 ?t j) =
              take (min 100 (length ?t - 400 * Suc j)) (tranche_500 ?t (Suc j)) \<and>
            length (drop 400 (tranche_500 ?t j)) = min 100 (length ?t - 400 * Suc j)"
  proof (intro allI impI conjI)
    fix j
    show "drop 400 (tranche_500 ?t j) =
              take (min 100 (length ?t - 400 * Suc j)) (tranche_500 ?t (Suc j))"
      by (rule chevauchement_tranches)
    show "length (drop 400 (tranche_500 ?t j)) = min 100 (length ?t - 400 * Suc j)"
      by (simp add: length_tranche_500)
  qed
  from a b c d e f show ?thesis by blast
qed

theorem chunker_500_100_witness:
  "est_pdf [97, 46, 112, 100, 102] \<and>
   lire_et_chunker_pdfs (Some [([97, 46, 112, 100, 102], Some [replicate 850 65])]) 500 100 =
     Inr \<lparr>chunks = [replicate 500 65, replicate 450 65, replicate 50 65],
          metadatas = [[97, 46, 112, 100, 102], [97, 46, 112, 100, 102], [97, 46, 112, 100, 102]],
          avertissements = []\<rparr> \<and>
   Suc 0 < nb_tranches (concat [replicate 850 (65::nat)]) \<and>
   length (tranche_500 (concat [replicate 850 65]) (Suc 0)) = 450 \<and>
   garde (tranche_500 (concat [replicate 850 65]) 0) \<and>
   garde (tranche_500 (concat [replicate 850 65]) (Suc 0)) \<and>
   garde (tranche_500 (concat [replicate 850 65]) (Suc (Suc 0))) \<and>
   length (filter garde (map (tranche_500 (concat [replicate 850 65]))
      [0..<nb_tranches (concat [replicate 850 (65::nat)])])) = 3 \<and>
   Suc (Suc 0) < nb_tranches (concat [replicate 850 (65::nat)]) \<and>
   drop 400 (tranche_500 (concat [replicate 850 65]) (Suc 0)) = replicate 50 65"
proof -
  have n: "nb_tranches (replicate 850 (65::nat)) = 3" by (simp add: nb_tranches_def)
  have g: "\<forall>j<nb_tranches (concat [replicate 850 (65::nat)]).
             garde (tranche_500 (concat [replicate 850 65]) j)"
    by (simp add: tranche_500_eq garde_replicate nb_tranches_less)
  from chunker_500_100[OF est_pdf_a_pdf, of "[replicate 850 65]"]
  have "lire_et_chunker_pdfs (Some [([97, 46, 112, 100, 102], Some [replicate 850 65])]) 500 100 =
           Inr \<lparr>chunks = filter garde (map (tranche_500 (concat [replicate 850 65]))
                             [0..<nb_tranches (concat [replicate 850 (65::nat)])]),
                metadatas = replicate (length (filter garde (map (tranche_500 (concat [replicate 850 65]))
                             [0..<nb_tranches (concat [replicate 850 (65::nat)])]))) [97, 46, 112, 100, 102],
                avertissements = []\<rparr>"
    and "length (tranche_500 (concat [replicate 850 65]) (Suc 0)) =
           min 500 (length (concat [replicate 850 (65::nat)]) - 400 * Suc 0)"
    and "length (filter garde (map (tranche_500 (concat [replicate 850 65]))
      [0..<nb_tranches (concat [replicate 850 (65::nat)])])) = nb_tranches (concat [replicate 850 (65::nat)])"
    and "drop 400 (tranche_500 (concat [replicate 850 65]) (Suc 0)) =
              take (min 100 (length (concat [replicate 850 (65::nat)]) - 400 * Suc (Suc 0)))
                (tranche_500 (concat [replicate 850 65]) (Suc (Suc 0)))"
    using g n by simp_all
  with est_pdf_a_pdf g lire_850 n show ?thesis
    by (simp add: tranche_500_eq garde_replicate)
qed

section \<open>Properties of the advisory list\<close>

lemma cles_de_tri_dates:
  "\<forall>e\<in>set entries. published_parsed e \<noteq> None \<Longrightarrow> cles_de_tri entries = Inr (map date_de entries)"
  by (induction entries) (auto simp: date_de_def split: option.splits)

lemma insort_key_decore:
  "insort_key fst (f x, x) (map (\<lambda>y. (f y, y)) ys) = map (\<lambda>y. (f y, y)) (insort_key f x ys)"
  by (induction ys) simp_all

lemma sort_key_decore:
  "sort_key fst (map (\<lambda>y. (f y, y)) xs) = map (\<lambda>y. (f y, y)) (sort_key f xs)"
  by (induction xs) (simp_all add: insort_key_decore)

lemma zip_decore: "zip (map f xs) xs = map (\<lambda>y. (f y, y)) xs"
  by (induction xs) simp_all

lemma py_sorted_reverse_decore:
  "map snd (py_sorted_reverse fst (zip (map f xs) xs)) = py_sorted_reverse f xs"
proof -
  have "sort_key fst (rev (map (\<lambda>y. (f y, y)) xs)) = map (\<lambda>y. (f y, y)) (sort_key f (rev xs))"
    using sort_key_decore[of f "rev xs"] by (simp add: rev_map)
  then show ?thesis
    by (simp add: py_sorted_reverse_def zip_decore rev_map comp_def)
qed

lemma cles_de_tri_Inr:
  "cles_de_tri entries = Inr ks \<longleftrightarrow>
     (\<forall>e\<in>set entries. published_parsed e \<noteq> None) \<and> ks = map date_de entries"
proof (induction entries arbitrary: ks)
  case Nil
  show ?case by auto
next
  case (Cons e entries)
  show ?case
  proof (cases "published_parsed e")
    case None
    then show ?thesis by simp
  next
    case (Some k)
    then have d: "date_de e = k" by (simp add: date_de_def)
    show ?thesis
    proof (cases "cles_de_tri entries")
      case (Inl err)
      with Cons[of "map date_de entries"] Some show ?thesis by auto
    next
      case (Inr ks')
      with Cons[of ks'] Some d show ?thesis by auto
    qed
  qed
qed

lemma articles_tries_Inr:
  "(\<exists>tries. articles_tries entries = Inr tries) \<longleftrightarrow>
     (\<forall>e\<in>set entries. published_parsed e \<noteq> None) \<and>
     (2 \<le> length entries \<longrightarrow> (\<forall>e\<in>set entries. date_de e \<noteq> None))"
proof (cases "cles_de_tri entries")
  case (Inl err)
  have "\<not> (\<forall>e\<in>set entries. published_parsed e \<noteq> None)"
  proof
    assume "\<forall>e\<in>set entries. published_parsed e \<noteq> None"
    then have "cles_de_tri entries = Inr (map date_de entries)" by (rule cles_de_tri_dates)
    with Inl show False by simp
  qed
  with Inl show ?thesis by (simp add: articles_tries_def)
next
  case (Inr ks)
  then have k: "\<forall>e\<in>set entries. published_parsed e \<noteq> None" "ks = map date_de entries"
    by (simp_all add: cles_de_tri_Inr)
  have "None \<in> set ks \<longleftrightarrow> \<not> (\<forall>e\<in>set entries. date_de e \<noteq> None)"
    using k(2) by (metis (no_types, lifting) image_iff list.set_map)
  with Inr k show ?thesis by (auto simp: articles_tries_def)
qed

lemma articles_tries_dates:
  assumes "articles_tries entries = Inr tries"
  shows "tries = py_sorted_reverse date_de entries"
proof (cases "cles_de_tri entries")
  case (Inl err)
  with assms show ?thesis by (simp add: articles_tries_def)
next
  case (Inr ks)
  then have "ks = map date_de entries" by (simp add: cles_de_tri_Inr)
  with assms Inr show ?thesis
    by (auto simp: articles_tries_def py_sorted_reverse_decore split: if_splits)
qed

lemma alerte_de_Inr: "(\<exists>a. alerte_de e = Inr a) \<longleftrightarrow> entree_affichable e"
  by (auto simp: alerte_de_def entree_affichable_def split: option.splits)

lemma boucle_alertes_complets:
  assumes "\<forall>e\<in>set es. entree_affichable e"
  shows "\<exists>as. boucle_alertes es acc = Inr (acc @ as) \<and> map alerte_de es = map Inr as"
  using assms
proof (induction es arbitrary: acc)
  case Nil
  show ?case by simp
next
  case (Cons e es)
  from Cons.prems have "entree_affichable e" by simp
  then obtain a where a: "alerte_de e = Inr a"
    using alerte_de_Inr by blast
  from Cons.prems have "\<forall>e\<in>set es. entree_affichable e" by simp
  from Cons.IH[OF this, of "acc @ [a]"] obtain as where
    "boucle_alertes es (acc @ [a]) = Inr ((acc @ [a]) @ as)" "map alerte_de es = map Inr as"
    by blast
  with a have "boucle_alertes (e # es) acc = Inr (acc @ (a # as)) \<and>
      map alerte_de (e # es) = map Inr (a # as)" by simp
  then show ?case by blast
qed

lemma boucle_alertes_Inr:
  "(\<exists>as. boucle_alertes es acc = Inr as) \<longleftrightarrow> (\<forall>e\<in>set es. entree_affichable e)"
proof (induction es arbitrary: acc)
  case Nil
  show ?case by simp
next
  case (Cons e es)
  show ?case
  proof (cases "alerte_de e")
    case (Inl err)
    then have "\<not> entree_affichable e" using alerte_de_Inr[of e] by auto
    with Inl show ?thesis by simp
  next
    case (Inr a)
    then have "entree_affichable e" using alerte_de_Inr[of e] by auto
    with Inr Cons[of "acc @ [a]"] show ?thesis by simp
  qed
qed

lemma get_alertes_certfr_Inr:
  "(\<exists>alertes. get_alertes_certfr entries = Inr alertes) \<longleftrightarrow> flux_exploitable entries"
proof (cases "articles_tries entries")
  case (Inl err)
  then have "\<not> (\<exists>tries. articles_tries entries = Inr tries)" by simp
  then have "\<not> flux_exploitable entries"
    unfolding articles_tries_Inr flux_exploitable_def by blast
  with Inl show ?thesis by (simp add: get_alertes_certfr_def)
next
  case (Inr tries)
  then have t: "tries = py_sorted_reverse date_de entries" by (rule articles_tries_dates)
  from Inr have "\<exists>tries. articles_tries entries = Inr tries" by blast
  then have "(\<forall>e\<in>set entries. published_parsed e \<noteq> None) \<and>
     (2 \<le> length entries \<longrightarrow> (\<forall>e\<in>set entries. date_de e \<noteq> None))"
    unfolding articles_tries_Inr .
  then have "flux_exploitable entries \<longleftrightarrow>
      (\<forall>e\<in>set (take 5 (py_sorted_reverse date_de entries)). entree_affichable e)"
    by (simp add: flux_exploitable_def)
  with Inr t boucle_alertes_Inr[of "take 5 tries" "[]"] show ?thesis
    by (simp add: get_alertes_certfr_def)
qed

lemma mset_py_sorted_reverse: "mset (py_sorted_reverse f xs) = mset xs"
  by (simp add: py_sorted_reverse_def)

lemma sorted_py_sorted_reverse: "sorted (rev (map f (py_sorted_reverse f xs)))"
  by (simp add: py_sorted_reverse_def rev_map[symmetric])

lemma descendant_coupe:
  assumes "sorted (rev (map f xs))"
  shows "\<forall>a\<in>set (take n xs). \<forall>b\<in>set (drop n xs). f b \<le> f a"
proof -
  from assms have "sorted_wrt (\<lambda>a b. f b \<le> f a) xs"
    by (simp add: rev_map[symmetric] sorted_wrt_rev sorted_wrt_map)
  then have "sorted_wrt (\<lambda>a b. f b \<le> f a) (take n xs @ drop n xs)" by simp
  then show ?thesis unfolding sorted_wrt_append by blast
qed

lemma sort_key_cle_constante:
  assumes "\<forall>x\<in>set xs. f x = d"
  shows "sort_key f xs = xs"
proof -
  from assms have "map f xs = replicate (length xs) d"
    by (induction xs) simp_all
  then have "sorted (map f xs)" by (simp add: sorted_replicate)
  then show ?thesis by (rule sort_key_id_if_sorted)
qed

lemma py_sorted_reverse_stable:
  "filter (\<lambda>x. f x = d) (py_sorted_reverse f xs) = filter (\<lambda>x. f x = d) xs"
proof -
  have "filter (\<lambda>x. f x = d) (sort_key f (rev xs)) = sort_key f (filter (\<lambda>x. f x = d) (rev xs))"
    by (rule filter_sort)
  also have "\<dots> = filter (\<lambda>x. f x = d) (rev xs)"
    by (rule sort_key_cle_constante[where d = d]) simp
  finally show ?thesis
    by (simp add: py_sorted_reverse_def rev_filter[symmetric])
qed

lemma date_de_du_jour: "date_de (entree_du_jour j) = Some (2024, 1, int j, 0, 0, 0, 0, int j, 0)"
  by (simp add: date_de_def entree_du_jour_def)

lemma entree_du_jour_affichable: "entree_affichable (entree_du_jour j)"
  by (simp add: entree_affichable_def entree_du_jour_def)

lemma alerte_de_du_jour: "alerte_de (entree_du_jour j) = Inr (alerte_du_jour j)"
  by (simp add: alerte_de_def entree_du_jour_def alerte_du_jour_def)

lemma tri_sept_jours:
  "py_sorted_reverse date_de (map entree_du_jour [3, 1, 7, 2, 6, 5, 4]) =
     map entree_du_jour [7, 6, 5, 4, 3, 2, 1]"
  by (simp add: py_sorted_reverse_def date_de_du_jour less_eq_prod_def less_prod_def)

text \<open>
  Claim C8 as stated covers every feed. The function returns no list for three kinds of
  feed. An entry without a publish date makes the key function of the sort raise
  \<open>AttributeError\<close>. A date that feedparser could not parse is Python's \<open>None\<close>, and with two
  entries or more the comparison of the sort raises \<open>TypeError\<close>. An entry among the five
  most recent that lacks one of the four attributes read by the loop, here the title, makes
  the loop raise \<open>AttributeError\<close>.
\<close>

theorem get_alertes_certfr_leve:
  "get_alertes_certfr [entree_sans_date] = Inl AttributeError \<and>
   get_alertes_certfr [entree_du_jour 1, (entree_du_jour 2)\<lparr>published_parsed := Some None\<rparr>] =
     Inl TypeError \<and>
   get_alertes_certfr [entree_du_jour 1, (entree_du_jour 2)\<lparr>title := None\<rparr>] = Inl AttributeError"
  by (simp add: get_alertes_certfr_def articles_tries_def entree_sans_date_def
      entree_du_jour_def py_sorted_reverse_def alerte_de_def less_eq_prod_def less_prod_def)

text \<open>
  Claim C8, amended. \<open>get_alertes_certfr\<close> returns a list exactly for the feeds in which every
  entry has a publish date attribute, every publish date was parsed unless the feed has
  fewer than two entries, and the five most recent entries carry a title, a publish date
  string, a summary and a link. For such a feed it returns the advisories of the first five
  entries of the feed sorted by parsed publish date, most recent first: the sorted list is
  a rearrangement of the entries, its dates are in descending order, entries with the same
  date keep the order of the feed, every entry left out is no more recent than any entry
  kept, and \<open>min(5, n)\<close> advisories are returned. An instance is the example of the
  specification: seven entries dated day 1 to day 7 give the advisories of days 7, 6, 5, 4,
  3 in that order, also when the entry of day 1 has no summary.
\<close>

theorem get_alertes_certfr_tri:
  "((\<exists>alertes. get_alertes_certfr entries = Inr alertes) \<longleftrightarrow> flux_exploitable entries) \<and>
   (flux_exploitable entries \<longrightarrow>
     (\<exists>alertes. get_alertes_certfr entries = Inr alertes \<and>
        map alerte_de (take 5 (py_sorted_reverse date_de entries)) = map Inr alertes \<and>
        length alertes = min 5 (length entries))) \<and>
   mset (py_sorted_reverse date_de entries) = mset entries \<and>
   sorted (rev (map date_de (py_sorted_reverse date_de entries))) \<and>
   (\<forall>d. filter (\<lambda>e. date_de e = d) (py_sorted_reverse date_de entries) =
        filter (\<lambda>e. date_de e = d) entries) \<and>
   (\<forall>a\<in>set (take 5 (py_sorted_reverse date_de entries)).
      \<forall>b\<in>set (drop 5 (py_sorted_reverse date_de entries)). date_de b \<le> date_de a)"
proof -
  let ?tries = "py_sorted_reverse date_de entries"
  have m: "mset ?tries = mset entries" by (rule mset_py_sorted_reverse)
  have s: "sorted (rev (map date_de ?tries))" by (rule sorted_py_sorted_reverse)
  have r: "\<exists>alertes. get_alertes_certfr entries = Inr alertes \<and>
        map alerte_de (take 5 ?tries) = map Inr alertes \<and>
        length alertes = min 5 (length entries)"
    if f: "flux_exploitable entries"
  proof -
    from f obtain alertes where g: "get_alertes_certfr entries = Inr alertes"
      using get_alertes_certfr_Inr by blast
    then obtain tries where t: "articles_tries entries = Inr tries"
      by (cases "articles_tries entries") (simp_all add: get_alertes_certfr_def)
    then have tt: "tries = ?tries" by (rule articles_tries_dates)
    from f have "\<forall>e\<in>set (take 5 ?tries). entree_affichable e"
      by (simp add: flux_exploitable_def)
    from boucle_alertes_complets[OF this, of "[]"] obtain as where
      a: "boucle_alertes (take 5 ?tries) [] = Inr as" "map alerte_de (take 5 ?tries) = map Inr as"
      by auto
    from g t tt a(1) have "alertes = as" by (simp add: get_alertes_certfr_def)
    from a(2) have "length (take 5 ?tries) = length as"
      using length_map by metis
    moreover from m have "length ?tries = length entries" by (rule mset_eq_length)
    ultimately have "length as = min 5 (length entries)" by simp
    with g a(2) \<open>alertes = as\<close> show ?thesis by blast
  qed
  from get_alertes_certfr_Inr[of entries] r m s
    py_sorted_reverse_stable[of date_de _ entries] descendant_coupe[OF s, of 5]
  show ?thesis by blast
qed

theorem get_alertes_certfr_tri_witness:
  "flux_exploitable (map entree_du_jour [3, 1, 7, 2, 6, 5, 4]) \<and>
   get_alertes_certfr (map entree_du_jour [3, 1, 7, 2, 6, 5, 4]) =
     Inr (map alerte_du_jour [7, 6, 5, 4, 3]) \<and>
   get_alertes_certfr
     [entree_du_jour 3, (entree_du_jour 1)\<lparr>summary := None\<rparr>, entree_du_jour 7, entree_du_jour 2,
      entree_du_jour 6, entree_du_jour 5, entree_du_jour 4] =
     Inr (map alerte_du_jour [7, 6, 5, 4, 3]) \<and>
   get_alertes_certfr [(entree_du_jour 1)\<lparr>published_parsed := Some None\<rparr>] =
     Inr [alerte_du_jour 1]"
proof -
  let ?flux = "map entree_du_jour [3, 1, 7, 2, 6, 5, 4]"
  have d: "\<forall>e\<in>set ?flux. published_parsed e \<noteq> None" "\<forall>e\<in>set ?flux. date_de e \<noteq> None"
    by (simp_all add: date_de_du_jour) (simp add: entree_du_jour_def)
  have "\<forall>e\<in>set (map entree_du_jour [7, 6, 5, 4, 3]). entree_affichable e"
    by (simp add: entree_du_jour_affichable)
  then have c: "flux_exploitable ?flux"
    unfolding flux_exploitable_def tri_sept_jours using d by simp
  with get_alertes_certfr_tri[of ?flux] obtain alertes where
    g: "get_alertes_certfr ?flux = Inr alertes" and
    a: "map alerte_de (take 5 (py_sorted_reverse date_de ?flux)) = map Inr alertes"
    by blast
  from a have "map Inr alertes = (map Inr (map alerte_du_jour [7, 6, 5, 4, 3]) :: (py_error + alerte) list)"
    unfolding tri_sept_jours by (simp add: alerte_de_du_jour)
  then have "alertes = map alerte_du_jour [7, 6, 5, 4, 3]"
    by (metis inj_Inr inj_map_eq_map)
  with g have g7: "get_alertes_certfr ?flux = Inr (map alerte_du_jour [7, 6, 5, 4, 3])" by simp
  have g6: "get_alertes_certfr
     [entree_du_jour 3, (entree_du_jour 1)\<lparr>summary := None\<rparr>, entree_du_jour 7, entree_du_jour 2,
      entree_du_jour 6, entree_du_jour 5, entree_du_jour 4] =
     Inr (map alerte_du_jour [7, 6, 5, 4, 3])"
    by (simp add: get_alertes_certfr_def articles_tries_def entree_du_jour_def alerte_du_jour_def
        py_sorted_reverse_def alerte_de_def less_eq_prod_def less_prod_def)
  have g1: "get_alertes_certfr [(entree_du_jour 1)\<lparr>published_parsed := Some None\<rparr>] =
     Inr [alerte_du_jour 1]"
    by (simp add: get_alertes_certfr_def articles_tries_def entree_du_jour_def alerte_du_jour_def
        py_sorted_reverse_def alerte_de_def)
  from c g7 g6 g1 show ?thesis by simp
qed

section \<open>Properties of the retrieval\<close>

lemma construire_index_vide: "construire_index m [] = Inl IndexError"
  by (simp add: construire_index_def model_encode_def py_index_def)



lemma extraire_corpus_vide: "ligne \<noteq> [] \<Longrightarrow> extraire [] ligne = Inl IndexError"
  by (cases ligne) (auto simp: py_index_def)

lemma length_plus_proches: "length (snd (plus_proches distance idx k q)) = k"
  by (simp add: plus_proches_def Let_def)

lemma rechercher_passages_eq:
  assumes "index_d idx = dimension m" and "1 \<le> top_k"
  shows "rechercher_passages distance m question chs idx top_k =
           extraire chs (snd (plus_proches distance idx (nat top_k) (plongement m question)))"
  using assms
  by (simp add: rechercher_passages_def model_encode_def index_search_def py_index_def)






lemma parcourir_illisible:
  assumes "\<forall>ent\<in>set entrees. est_pdf (fst ent) \<longrightarrow> snd ent = None"
  shows "parcourir t v entrees e =
           e\<lparr>avertissements := avertissements e @
                map (\<lambda>ent. (fst ent, ExtractionError)) (filter (\<lambda>ent. est_pdf (fst ent)) entrees)\<rparr>"
  using assms
proof (induction entrees arbitrary: e)
  case Nil
  show ?case by simp
next
  case (Cons ent reste)
  then show ?case by (simp add: traiter_fichier_def)
qed

lemma lire_corpus_illisible:
  assumes "\<forall>ent\<in>set entrees. est_pdf (fst ent) \<longrightarrow> snd ent = None"
  shows "lire_et_chunker_pdfs (Some entrees) t v =
           Inr \<lparr>chunks = [], metadatas = [],
                avertissements = map (\<lambda>ent. (fst ent, ExtractionError))
                                   (filter (\<lambda>ent. est_pdf (fst ent)) entrees)\<rparr>"
  using assms by (simp add: lire_et_chunker_pdfs_def parcourir_illisible)

lemma rechercher_passages_corpus_vide:
  assumes "index_d idx = dimension m" and "1 \<le> top_k"
  shows "rechercher_passages distance m question [] idx top_k = Inl IndexError"
proof -
  have "length (snd (plus_proches distance idx (nat top_k) (plongement m question))) = nat top_k"
    by (rule length_plus_proches)
  with assms(2) have "snd (plus_proches distance idx (nat top_k) (plongement m question)) \<noteq> []"
    by auto
  then show ?thesis
    using rechercher_passages_eq[OF assms, of distance question "[]"]
    by (simp add: extraire_corpus_vide)
qed

lemma passages_pertinents_sans_chunks:
  assumes "lire_et_chunker_pdfs dossier 500 100 = Inr r" and "chunks r = []"
  shows "passages_pertinents distance m dossier question = Inl IndexError"
  using assms by (simp add: passages_pertinents_def construire_index_vide)

text \<open>
  Claim C1 as stated says that the pipeline returns an empty sequence on an empty corpus.
  On an empty directory \<open>lire_et_chunker_pdfs\<close> returns two empty lists, and the pipeline
  then raises \<open>IndexError\<close>.
\<close>

theorem corpus_vide_leve:
  "lire_et_chunker_pdfs (Some []) 500 100 =
     Inr \<lparr>chunks = [], metadatas = [], avertissements = []\<rparr> \<and>
   passages_pertinents fvec_L2sqr_ref modele_exemple (Some []) [113] = Inl IndexError"
  by (simp add: passages_pertinents_def lire_et_chunker_pdfs_def construire_index_vide)

text \<open>
  Claim C1, amended. If the corpus directory has no PDF, or every PDF is unreadable,
  \<open>lire_et_chunker_pdfs\<close> returns an empty chunk list and an empty origin list without
  raising, and has shown exactly one warning for each unreadable PDF, in listing order.
  Neither function after it has a guard for an empty corpus: \<open>construire_index\<close> raises
  \<open>IndexError\<close> on the empty chunk list (the array of embeddings has no second dimension),
  and \<open>rechercher_passages\<close> on an empty chunk list raises \<open>IndexError\<close> for every index of the
  model's dimension and every \<open>top_k\<close> of at least one (each label it gets is out of range).
  So the pipeline \<open>lire_et_chunker_pdfs\<close>, \<open>construire_index\<close>, \<open>rechercher_passages\<close> ends in
  \<open>IndexError\<close>; it does so whenever \<open>lire_et_chunker_pdfs\<close> returns no chunk.
\<close>

theorem corpus_sans_chunks:
  assumes "\<forall>ent\<in>set entrees. est_pdf (fst ent) \<longrightarrow> snd ent = None"
  shows "lire_et_chunker_pdfs (Some entrees) 500 100 =
           Inr \<lparr>chunks = [], metadatas = [],
                avertissements = map (\<lambda>ent. (fst ent, ExtractionError))
                                   (filter (\<lambda>ent. est_pdf (fst ent)) entrees)\<rparr> \<and>
         construire_index m [] = Inl IndexError \<and>
         (\<forall>idx top_k. index_d idx = dimension m \<and> 1 \<le> top_k \<longrightarrow>
            rechercher_passages distance m question [] idx top_k = Inl IndexError) \<and>
         passages_pertinents distance m (Some entrees) question = Inl IndexError \<and>
         (\<forall>dossier r. lire_et_chunker_pdfs dossier 500 100 = Inr r \<and> chunks r = [] \<longrightarrow>
            passages_pertinents distance m dossier question = Inl IndexError)"
proof -
  have l: "lire_et_chunker_pdfs (Some entrees) 500 100 =
           Inr \<lparr>chunks = [], metadatas = [],
                avertissements = map (\<lambda>ent. (fst ent, ExtractionError))
                                   (filter (\<lambda>ent. est_pdf (fst ent)) entrees)\<rparr>"
    using assms by (rule lire_corpus_illisible)
  then have "passages_pertinents distance m (Some entrees) question = Inl IndexError"
    by (rule passages_pertinents_sans_chunks) simp
  with l show ?thesis
    by (auto simp: construire_index_vide rechercher_passages_corpus_vide
        passages_pertinents_sans_chunks)
qed

theorem corpus_sans_chunks_witness:
  "lire_et_chunker_pdfs
     (Some [([98, 46, 112, 100, 102], None), ([110, 46, 116, 120, 116], Some [[97]]),
            ([99, 46, 80, 68, 70], None)]) 500 100 =
     Inr \<lparr>chunks = [], metadatas = [],
          avertissements = [([98, 46, 112, 100, 102], ExtractionError),
                            ([99, 46, 80, 68, 70], ExtractionError)]\<rparr> \<and>
   passages_pertinents fvec_L2sqr_ref modele_exemple
     (Some [([98, 46, 112, 100, 102], None), ([110, 46, 116, 120, 116], Some [[97]]),
            ([99, 46, 80, 68, 70], None)]) [113] =
     Inl IndexError \<and>
   rechercher_passages fvec_L2sqr_ref modele_exemple [113] []
     \<lparr>index_d = 2, index_xb = []\<rparr> 3 = Inl IndexError"
proof -
  let ?d = "[([98, 46, 112, 100, 102], None), ([110, 46, 116, 120, 116], Some [[97]]),
             ([99, 46, 80, 68, 70], None)]"
  have p: "est_pdf [98, 46, 112, 100, 102]" "\<not> est_pdf [110, 46, 116, 120, 116]"
    "est_pdf [99, 46, 80, 68, 70]"
    by (simp_all add: est_pdf_def py_endswith_def py_lower_def ascii_def)
  have h: "\<forall>ent\<in>set ?d. est_pdf (fst ent) \<longrightarrow> snd ent = None"
    using p by simp
  have d: "index_d \<lparr>index_d = 2, index_xb = []\<rparr> = dimension modele_exemple \<and> (1::int) \<le> 3"
    by (simp add: modele_exemple_def)
  from corpus_sans_chunks[OF h, of modele_exemple fvec_L2sqr_ref "[113]"] p d show ?thesis
    by simp
qed







section \<open>Properties of the conversation log\<close>

text \<open>
  The bound on the nested calls of the scanner is never reached: a successful call returns
  a shorter text, and a call with more than twice the length of the text as bound gives the
  same result with any larger bound.
\<close>

lemma length_sauter_blancs: "length (sauter_blancs s) \<le> length s"
  by (simp add: sauter_blancs_def length_dropWhile_le)

lemma paire_basse_reste: "paire_basse s = Some (v, r) \<Longrightarrow> length r < length s"
  by (auto simp: paire_basse_def split: list.splits if_splits option.splits)

lemma ajouter_Some: "ajouter c x = Some (s, r) \<Longrightarrow> \<exists>s'. x = Some (s', r)"
  by (cases x) auto

lemma scanstring_suite:
  assumes "scanstring (c # cs) = Some (x, r)" and "c \<noteq> 34"
  shows "\<exists>t x'. length t \<le> length cs \<and> scanstring t = Some (x', r)"
proof (cases "c = 92")
  case False
  with assms have "ajouter c (scanstring cs) = Some (x, r)" by (simp split: if_splits)
  then obtain s' where "scanstring cs = Some (s', r)" using ajouter_Some by blast
  then show ?thesis by auto
next
  case True
  show ?thesis
  proof (cases cs)
    case Nil
    with assms True show ?thesis by simp
  next
    case (Cons e cs1)
    show ?thesis
    proof (cases "e = 117")
      case False
      with assms True Cons obtain y where "ajouter y (scanstring cs1) = Some (x, r)"
        by (auto split: option.splits)
      then obtain s' where "scanstring cs1 = Some (s', r)" using ajouter_Some by blast
      moreover from Cons have "length cs1 \<le> length cs" by simp
      ultimately show ?thesis by blast
    next
      case u: True
      from assms True Cons u obtain h1 h2 h3 h4 cs2 where cs1: "cs1 = h1 # h2 # h3 # h4 # cs2"
        by (auto split: list.splits)
      from assms True Cons u cs1 obtain v where hex: "hex4 h1 h2 h3 h4 = Some v"
        by (auto split: option.splits)
      show ?thesis
      proof (cases "55296 \<le> v \<and> v \<le> 56319 \<and> paire_basse cs2 \<noteq> None")
        case True
        then obtain w cs3 where p: "paire_basse cs2 = Some (w, cs3)" by auto
        with assms \<open>c = 92\<close> Cons u cs1 hex True
        have "ajouter (65536 + (v - 55296) * 1024 + (w - 56320)) (scanstring cs3) = Some (x, r)"
          by simp
        then obtain s' where s': "scanstring cs3 = Some (s', r)" using ajouter_Some by blast
        from paire_basse_reste[OF p] Cons cs1 have "length cs3 \<le> length cs" by simp
        with s' show ?thesis by blast
      next
        case False
        with assms \<open>c = 92\<close> Cons u cs1 hex
        have "ajouter v (scanstring cs2) = Some (x, r)"
          by (auto split: option.splits if_splits)
        then obtain s' where s': "scanstring cs2 = Some (s', r)" using ajouter_Some by blast
        from Cons cs1 have "length cs2 \<le> length cs" by simp
        with s' show ?thesis by blast
      qed
    qed
  qed
qed

lemma scanstring_reste: "scanstring s = Some (x, r) \<Longrightarrow> length r < length s"
proof (induction "length s" arbitrary: s x r rule: less_induct)
  case less
  show ?case
  proof (cases s)
    case Nil
    with less.prems show ?thesis by simp
  next
    case (Cons c cs)
    show ?thesis
    proof (cases "c = 34")
      case True
      with less.prems Cons show ?thesis by simp
    next
      case False
      from scanstring_suite[OF less.prems[unfolded Cons] False] obtain t x' where
        t: "length t \<le> length cs" "scanstring t = Some (x', r)" by blast
      from t(1) Cons have "length t < length s" by simp
      from less.hyps[OF this t(2)] t(1) Cons show ?thesis by simp
    qed
  qed
qed

lemma partie_entiere_reste: "partie_entiere s = Some (x, r) \<Longrightarrow> length r < length s"
  by (auto simp: partie_entiere_def length_dropWhile_le less_Suc_eq_le
      split: list.splits if_splits)

lemma partie_fraction_reste: "length (snd (partie_fraction s)) \<le> length s"
proof -
  have "length (dropWhile est_chiffre cs) \<le> Suc (Suc (length cs))" for cs
    using length_dropWhile_le[of est_chiffre cs] by simp
  then show ?thesis
    by (auto simp: partie_fraction_def split: list.splits)
qed

lemma partie_exposant_reste: "length (snd (partie_exposant s)) \<le> length s"
proof -
  have a: "length (dropWhile est_chiffre cs) \<le> Suc (Suc (length cs))" for cs
    using length_dropWhile_le[of est_chiffre cs] by simp
  have b: "length (dropWhile est_chiffre cs) \<le> Suc (Suc (Suc (length cs)))" for cs
    using length_dropWhile_le[of est_chiffre cs] by simp
  show ?thesis
    by (auto simp: partie_exposant_def a b split: list.splits)
qed

lemma match_number_reste: "match_number s = Some (x, r) \<Longrightarrow> length r < length s"
proof -
  assume a: "match_number s = Some (x, r)"
  let ?signe = "case s of [] \<Rightarrow> [] | c # cs \<Rightarrow> if c = 45 then [45::nat] else []"
  from a obtain ent s2 where e: "partie_entiere (drop (length ?signe) s) = Some (ent, s2)"
    and r: "r = snd (partie_exposant (snd (partie_fraction s2)))"
    by (auto simp: match_number_def Let_def split: option.splits)
  from partie_entiere_reste[OF e] have "length s2 < length s" by simp
  moreover have "length r \<le> length s2"
    unfolding r using partie_exposant_reste[of "snd (partie_fraction s2)"]
      partie_fraction_reste[of s2] by simp
  ultimately show ?thesis by simp
qed


lemma sauter_blancs_Cons_reste: "sauter_blancs cs = d # r \<Longrightarrow> length r < length cs"
  using length_sauter_blancs[of cs] by simp

lemma sauter_blancs_Cons_longueur: "sauter_blancs cs = d # r \<Longrightarrow> length (d # r) \<le> length cs"
  using length_sauter_blancs[of cs] by simp

lemma scan_once_reste_pas:
  assumes pa: "\<forall>p s vs r. parse_array n p s = Inr (vs, r) \<longrightarrow> length r < length s"
    and po: "\<forall>p s kvs r. parse_object n p s = Inr (kvs, r) \<longrightarrow> length r < length s"
    and s: "scan_once (Suc n) p s = Inr (v, r)"
  shows "length r < length s"
proof (cases s)
  case Nil
  with s show ?thesis by simp
next
  case (Cons c cs)
  consider "c = 34" | "c = 123" | "c = 91" | "c \<noteq> 34" "c \<noteq> 123" "c \<noteq> 91" by blast
  then show ?thesis
  proof cases
    case 1
    with s Cons obtain x where "scanstring cs = Some (x, r)"
      by (auto split: option.splits)
    from scanstring_reste[OF this] Cons show ?thesis by simp
  next
    case 2
    with s Cons have p: "p \<noteq> 0" by (auto split: if_splits)
    with s Cons 2 obtain d r0 where d: "sauter_blancs cs = d # r0"
      by (auto split: list.splits)
    show ?thesis
    proof (cases "d = 125")
      case True
      with s Cons 2 p d have "r = r0" by simp
      with sauter_blancs_Cons_reste[OF d] Cons show ?thesis by simp
    next
      case False
      with s Cons 2 p d obtain kvs where "parse_object n (p - 1) (d # r0) = Inr (kvs, r)"
        by (auto split: sum.splits)
      from po[rule_format, OF this] sauter_blancs_Cons_longueur[OF d] Cons show ?thesis by simp
    qed
  next
    case 3
    with s Cons have p: "p \<noteq> 0" by (auto split: if_splits)
    with s Cons 3 obtain d r0 where d: "sauter_blancs cs = d # r0"
      by (auto split: list.splits)
    show ?thesis
    proof (cases "d = 93")
      case True
      with s Cons 3 p d have "r = r0" by simp
      with sauter_blancs_Cons_reste[OF d] Cons show ?thesis by simp
    next
      case False
      with s Cons 3 p d obtain vs where "parse_array n (p - 1) (d # r0) = Inr (vs, r)"
        by (auto split: sum.splits)
      from pa[rule_format, OF this] sauter_blancs_Cons_longueur[OF d] Cons show ?thesis by simp
    qed
  next
    case 4
    from Cons have l: "0 < length s" by simp
    from s 4 Cons have
      "(\<exists>k. 0 < k \<and> r = drop k s) \<or> (\<exists>x. match_number s = Some (x, r))"
      by (auto split: if_splits option.splits)
    then show ?thesis
    proof
      assume "\<exists>k. 0 < k \<and> r = drop k s"
      with l show ?thesis by auto
    next
      assume "\<exists>x. match_number s = Some (x, r)"
      then show ?thesis using match_number_reste by blast
    qed
  qed
qed


lemma parse_array_reste_pas:
  assumes sc: "\<forall>p s v r. scan_once n p s = Inr (v, r) \<longrightarrow> length r < length s"
    and pa: "\<forall>p s vs r. parse_array n p s = Inr (vs, r) \<longrightarrow> length r < length s"
    and s: "parse_array (Suc n) p s = Inr (vs, r)"
  shows "length r < length s"
proof -
  from s obtain v r0 where v: "scan_once n p s = Inr (v, r0)"
    by (auto split: sum.splits)
  with s obtain c r1 where c: "sauter_blancs r0 = c # r1"
    by (auto split: list.splits)
  have l: "length r1 < length s"
    using sc[rule_format, OF v] sauter_blancs_Cons_reste[OF c] by simp
  show ?thesis
  proof (cases "c = 93")
    case True
    with s v c have "r = r1" by simp
    with l show ?thesis by simp
  next
    case False
    with s v c obtain vs' where "parse_array n p (sauter_blancs r1) = Inr (vs', r)"
      by (auto split: if_splits sum.splits)
    from pa[rule_format, OF this] length_sauter_blancs[of r1] l show ?thesis by simp
  qed
qed

lemma parse_object_reste_pas:
  assumes sc: "\<forall>p s v r. scan_once n p s = Inr (v, r) \<longrightarrow> length r < length s"
    and po: "\<forall>p s kvs r. parse_object n p s = Inr (kvs, r) \<longrightarrow> length r < length s"
    and s: "parse_object (Suc n) p s = Inr (kvs, r)"
  shows "length r < length s"
proof -
  from s obtain cs where cs: "s = 34 # cs"
    by (cases s) (auto split: if_splits)
  with s obtain k r0 where k: "scanstring cs = Some (k, r0)"
    by (auto split: option.splits)
  with s cs obtain r1 where d: "sauter_blancs r0 = 58 # r1"
    by (auto split: list.splits if_splits)
  with s cs k obtain v r2 where v: "scan_once n p (sauter_blancs r1) = Inr (v, r2)"
    by (auto split: sum.splits)
  with s cs k d obtain f r3 where f: "sauter_blancs r2 = f # r3"
    by (auto split: list.splits)
  have "length r3 < length r2" by (rule sauter_blancs_Cons_reste[OF f])
  also have "length r2 < length (sauter_blancs r1)" by (rule sc[rule_format, OF v])
  also have "\<dots> \<le> length r1" by (rule length_sauter_blancs)
  also have "length r1 < length r0" by (rule sauter_blancs_Cons_reste[OF d])
  also have "length r0 < length cs" by (rule scanstring_reste[OF k])
  finally have l: "length r3 < length s" using cs by simp
  show ?thesis
  proof (cases "f = 125")
    case True
    with s cs k d v f have "r = r3" by simp
    with l show ?thesis by simp
  next
    case False
    with s cs k d v f obtain kvs' where "parse_object n p (sauter_blancs r3) = Inr (kvs', r)"
      by (auto split: if_splits sum.splits)
    from po[rule_format, OF this] length_sauter_blancs[of r3] l show ?thesis by simp
  qed
qed

lemma reste_plus_court:
  "(\<forall>p s v r. scan_once n p s = Inr (v, r) \<longrightarrow> length r < length s) \<and>
   (\<forall>p s vs r. parse_array n p s = Inr (vs, r) \<longrightarrow> length r < length s) \<and>
   (\<forall>p s kvs r. parse_object n p s = Inr (kvs, r) \<longrightarrow> length r < length s)"
proof (induction n)
  case 0
  show ?case by simp
next
  case (Suc n)
  then have sc: "\<forall>p s v r. scan_once n p s = Inr (v, r) \<longrightarrow> length r < length s"
    and pa: "\<forall>p s vs r. parse_array n p s = Inr (vs, r) \<longrightarrow> length r < length s"
    and po: "\<forall>p s kvs r. parse_object n p s = Inr (kvs, r) \<longrightarrow> length r < length s"
    by simp_all
  show ?case
    using scan_once_reste_pas[OF pa po] parse_array_reste_pas[OF sc pa]
      parse_object_reste_pas[OF sc po]
    by blast
qed

lemma scan_once_reste: "scan_once n p s = Inr (v, r) \<Longrightarrow> length r < length s"
  using reste_plus_court by blast


lemma scan_once_carburant_pas:
  assumes pa: "\<forall>p s. 2 * length s + 1 < n \<longrightarrow> parse_array (Suc n) p s = parse_array n p s"
    and po: "\<forall>p s. 2 * length s + 1 < n \<longrightarrow> parse_object (Suc n) p s = parse_object n p s"
    and b: "2 * length s < Suc n"
  shows "scan_once (Suc (Suc n)) p s = scan_once (Suc n) p s"
proof (cases s)
  case Nil
  then show ?thesis by simp
next
  case (Cons c cs)
  have l: "2 * length t + 1 < n" if "sauter_blancs cs = t" for t
    using length_sauter_blancs[of cs] that b Cons by auto
  have ea: "parse_array (Suc n) q t = parse_array n q t" if "sauter_blancs cs = t" for q t
    using pa l[OF that] by blast
  have eo: "parse_object (Suc n) q t = parse_object n q t" if "sauter_blancs cs = t" for q t
    using po l[OF that] by blast
  show ?thesis
    unfolding Cons scan_once.simps(2)[of "Suc n" p "c # cs"] scan_once.simps(2)[of n p "c # cs"]
    by (simp del: scan_once.simps parse_array.simps parse_object.simps add: ea eo
        split: list.splits)
qed

lemma parse_array_carburant_pas:
  assumes sc: "\<forall>p s. 2 * length s < n \<longrightarrow> scan_once (Suc n) p s = scan_once n p s"
    and pa: "\<forall>p s. 2 * length s + 1 < n \<longrightarrow> parse_array (Suc n) p s = parse_array n p s"
    and b: "2 * length s + 1 < Suc n"
  shows "parse_array (Suc (Suc n)) p s = parse_array (Suc n) p s"
proof -
  from b have "2 * length s < n" by simp
  with sc have e: "scan_once (Suc n) p s = scan_once n p s" by blast
  show ?thesis
  proof (cases "scan_once n p s")
    case (Inl err)
    with e show ?thesis by simp
  next
    case (Inr vr)
    obtain v r0 where vr: "vr = (v, r0)" by (cases vr)
    from scan_once_reste[OF Inr[unfolded vr]] have r0: "length r0 < length s" .
    have ea: "parse_array (Suc n) p (sauter_blancs r1) = parse_array n p (sauter_blancs r1)"
      if "sauter_blancs r0 = c # r1" for c r1
    proof -
      from sauter_blancs_Cons_reste[OF that] length_sauter_blancs[of r1] r0 b
      have "2 * length (sauter_blancs r1) + 1 < n" by simp
      with pa show ?thesis by blast
    qed
    show ?thesis
      unfolding parse_array.simps(2)[of "Suc n" p s] parse_array.simps(2)[of n p s] e Inr vr
      by (simp del: scan_once.simps parse_array.simps parse_object.simps add: ea
          split: list.splits)
  qed
qed

lemma parse_object_carburant_pas:
  assumes sc: "\<forall>p s. 2 * length s < n \<longrightarrow> scan_once (Suc n) p s = scan_once n p s"
    and po: "\<forall>p s. 2 * length s + 1 < n \<longrightarrow> parse_object (Suc n) p s = parse_object n p s"
    and b: "2 * length s + 1 < Suc n"
  shows "parse_object (Suc (Suc n)) p s = parse_object (Suc n) p s"
proof (cases s)
  case Nil
  then show ?thesis by simp
next
  case (Cons c cs)
  show ?thesis
  proof (cases "scanstring cs")
    case None
    with Cons show ?thesis by simp
  next
    case (Some kr)
    obtain k r0 where kr: "kr = (k, r0)" by (cases kr)
    from scanstring_reste[OF Some[unfolded kr]] have r0: "length r0 < length cs" .
    have es: "scan_once (Suc n) p (sauter_blancs r1) = scan_once n p (sauter_blancs r1)"
      if "sauter_blancs r0 = d # r1" for d r1
    proof -
      from sauter_blancs_Cons_reste[OF that] length_sauter_blancs[of r1] r0 b Cons
      have "2 * length (sauter_blancs r1) < n" by simp
      with sc show ?thesis by blast
    qed
    have eo: "parse_object (Suc n) p (sauter_blancs r3) = parse_object n p (sauter_blancs r3)"
      if "sauter_blancs r0 = d # r1" "scan_once n p (sauter_blancs r1) = Inr (v, r2)"
        "sauter_blancs r2 = f # r3" for d r1 v r2 f r3
    proof -
      from scan_once_reste[OF that(2)] sauter_blancs_Cons_reste[OF that(1)]
        sauter_blancs_Cons_reste[OF that(3)] length_sauter_blancs[of r1]
        length_sauter_blancs[of r3] r0 b Cons
      have "2 * length (sauter_blancs r3) + 1 < n" by simp
      with po show ?thesis by blast
    qed
    show ?thesis
      unfolding Cons parse_object.simps(2)[of "Suc n" p "c # cs"]
        parse_object.simps(2)[of n p "c # cs"]
      by (simp del: scan_once.simps parse_array.simps parse_object.simps add: Some kr es eo
          split: list.splits sum.splits)
  qed
qed

lemma carburant_suffisant:
  "(\<forall>p s. 2 * length s < n \<longrightarrow> scan_once (Suc n) p s = scan_once n p s) \<and>
   (\<forall>p s. 2 * length s + 1 < n \<longrightarrow> parse_array (Suc n) p s = parse_array n p s) \<and>
   (\<forall>p s. 2 * length s + 1 < n \<longrightarrow> parse_object (Suc n) p s = parse_object n p s)"
proof (induction n)
  case 0
  show ?case by simp
next
  case (Suc n)
  then have sc: "\<forall>p s. 2 * length s < n \<longrightarrow> scan_once (Suc n) p s = scan_once n p s"
    and pa: "\<forall>p s. 2 * length s + 1 < n \<longrightarrow> parse_array (Suc n) p s = parse_array n p s"
    and po: "\<forall>p s. 2 * length s + 1 < n \<longrightarrow> parse_object (Suc n) p s = parse_object n p s"
    by simp_all
  show ?case
    using scan_once_carburant_pas[OF pa po] parse_array_carburant_pas[OF sc pa]
      parse_object_carburant_pas[OF sc po]
    by blast
qed

lemma scan_once_carburant:
  assumes "2 * length s < n"
  shows "scan_once (n + k) p s = scan_once n p s"
proof (induction k)
  case 0
  show ?case by simp
next
  case (Suc k)
  from assms have "2 * length s < n + k" by simp
  with carburant_suffisant[of "n + k"] have "scan_once (Suc (n + k)) p s = scan_once (n + k) p s"
    by blast
  with Suc show ?case by simp
qed

lemma json_loads_carburant:
  assumes "2 * length (sauter_blancs s) < n"
  shows "json_loads p s =
     (case scan_once n p (sauter_blancs s) of
        Inl err \<Rightarrow> Inl err
      | Inr (v, r) \<Rightarrow> if sauter_blancs r = [] then Inr v else Inl JSONDecodeError)"
proof -
  from assms obtain k where "n = Suc (2 * length (sauter_blancs s)) + k"
    by (metis Suc_leI le_iff_add)
  then have "scan_once n p (sauter_blancs s) =
      scan_once (Suc (2 * length (sauter_blancs s))) p (sauter_blancs s)"
    using scan_once_carburant[of "sauter_blancs s" "Suc (2 * length (sauter_blancs s))" k p]
    by simp
  then show ?thesis by (simp add: json_loads_def Let_def)
qed

lemma hex_val_hexc: "n < 16 \<Longrightarrow> hex_val (hexc n) = Some n"
  by (auto simp: hex_val_def hexc_def)

lemma hex4_controle: "c < 32 \<Longrightarrow> hex4 48 48 (hexc (c div 16)) (hexc (c mod 16)) = Some c"
proof -
  assume c: "c < 32"
  then have "c div 16 < 16" by simp
  then have a: "hex_val (hexc (c div 16)) = Some (c div 16)" by (rule hex_val_hexc)
  have b: "hex_val (hexc (c mod 16)) = Some (c mod 16)" by (rule hex_val_hexc) simp
  have z: "hex_val 48 = Some 0" by (simp add: hex_val_def)
  show ?thesis by (simp add: hex4_def a b z)
qed

lemma scanstring_echapper:
  assumes "scanstring suite = Some (s, reste)"
  shows "scanstring (echapper c @ suite) = Some (c # s, reste)"
proof -
  consider "c = 34" | "c = 92" | "c = 10" | "c = 13" | "c = 9" | "c = 8" | "c = 12"
    | "c < 32" "c \<noteq> 10" "c \<noteq> 13" "c \<noteq> 9" "c \<noteq> 8" "c \<noteq> 12"
    | "32 \<le> c" "c \<noteq> 34" "c \<noteq> 92"
    by linarith
  then show ?thesis
  proof cases
    case 8
    then have e: "echapper c = [92, 117, 48, 48, hexc (c div 16), hexc (c mod 16)]"
      by (simp add: echapper_def)
    show ?thesis unfolding e using hex4_controle[OF 8(1)] 8(1) assms by simp
  next
    case 9
    then have e: "echapper c = [c]" by (simp add: echapper_def)
    show ?thesis unfolding e using 9 assms by simp
  qed (simp_all add: echapper_def echappement_simple_def assms)
qed

lemma scanstring_chaine:
  "scanstring (concat (map echapper s) @ 34 # reste) = Some (s, reste)"
proof (induction s)
  case Nil
  show ?case by simp
next
  case (Cons c s)
  from scanstring_echapper[OF Cons, of c] show ?case by simp
qed

lemma sauter_blancs_Cons:
  "sauter_blancs (c # cs) = (if est_blanc_json c then sauter_blancs cs else c # cs)"
  by (simp add: sauter_blancs_def)

lemma sauter_blancs_Nil: "sauter_blancs [] = []"
  by (simp add: sauter_blancs_def)

lemma sauter_blancs_prefixe:
  assumes "\<forall>c\<in>set b. c = 32 \<or> c = 9" and "\<not> est_blanc_json c"
  shows "sauter_blancs (b @ c # cs) = c # cs"
  using assms by (induction b) (auto simp: sauter_blancs_Cons est_blanc_json_def)

lemma sauter_blancs_blancs:
  assumes "\<forall>c\<in>set b. c = 32 \<or> c = 9"
  shows "sauter_blancs b = []"
  using assms by (induction b) (auto simp: sauter_blancs_Cons sauter_blancs_Nil est_blanc_json_def)

lemma scan_once_chaine:
  "scan_once (Suc n) p (py_encode_basestring s @ reste) = Inr (JStr s, reste)"
  by (simp add: py_encode_basestring_def scanstring_chaine)

lemma py_encode_basestring_Cons:
  "py_encode_basestring s @ reste = 34 # (concat (map echapper s) @ 34 # reste)"
  by (simp add: py_encode_basestring_def)

text \<open>The members of an object, once the key and the colon are read.\<close>

lemma parse_object_cle:
  assumes "\<not> est_blanc_json c"
  shows "parse_object (Suc n) p (34 # (concat (map echapper k) @ 34 # 58 # 32 # c # suite)) =
     (case scan_once n p (c # suite) of
        Inl err \<Rightarrow> Inl err
      | Inr (v, r2) \<Rightarrow>
          (case sauter_blancs r2 of
             [] \<Rightarrow> Inl JSONDecodeError
           | f # r3 \<Rightarrow>
               if f = 125 then Inr ([(k, v)], r3)
               else if f = 44 then
                 (case parse_object n p (sauter_blancs r3) of
                    Inl err \<Rightarrow> Inl err
                  | Inr (kvs, r4) \<Rightarrow> Inr ((k, v) # kvs, r4))
               else Inl JSONDecodeError))"
  using assms by (simp add: scanstring_chaine sauter_blancs_Cons est_blanc_json_def)

lemma parse_object_dernier:
  assumes "scan_once n p (c # suite) = Inr (v, 125 # reste)" and "\<not> est_blanc_json c"
  shows "parse_object (Suc n) p (34 # (concat (map echapper k) @ 34 # 58 # 32 # c # suite)) =
           Inr ([(k, v)], reste)"
  unfolding parse_object_cle[OF assms(2)] assms(1)
  by (simp add: sauter_blancs_Cons est_blanc_json_def)

lemma parse_object_suivi:
  assumes "scan_once n p (c # suite) = Inr (v, 44 # 32 # 34 # suite2)" and "\<not> est_blanc_json c"
    and "parse_object n p (34 # suite2) = Inr (kvs, reste)"
  shows "parse_object (Suc n) p (34 # (concat (map echapper k) @ 34 # 58 # 32 # c # suite)) =
           Inr ((k, v) # kvs, reste)"
  unfolding parse_object_cle[OF assms(2)] assms(1)
  by (simp add: sauter_blancs_Cons est_blanc_json_def assms(3))

lemma parse_object_suivi_erreur:
  assumes "scan_once n p (c # suite) = Inr (v, 44 # 32 # 34 # suite2)" and "\<not> est_blanc_json c"
    and "parse_object n p (34 # suite2) = Inl err"
  shows "parse_object (Suc n) p (34 # (concat (map echapper k) @ 34 # 58 # 32 # c # suite)) =
           Inl err"
  unfolding parse_object_cle[OF assms(2)] assms(1)
  by (simp add: sauter_blancs_Cons est_blanc_json_def assms(3))

lemma parse_object_erreur:
  assumes "scan_once n p (c # suite) = Inl err" and "\<not> est_blanc_json c"
  shows "parse_object (Suc n) p (34 # (concat (map echapper k) @ 34 # 58 # 32 # c # suite)) =
           Inl err"
  unfolding parse_object_cle[OF assms(2)] assms(1) by simp

lemma scan_once_objet:
  "scan_once (Suc n) (Suc p) (123 # 34 # suite) =
     (case parse_object n p (34 # suite) of
        Inl err \<Rightarrow> Inl err
      | Inr (kvs, reste) \<Rightarrow> Inr (JObj kvs, reste))"
  by (simp add: sauter_blancs_Cons est_blanc_json_def)

lemma scan_once_sans_place: "scan_once (Suc n) 0 (123 # suite) = Inl RecursionError"
  by simp

lemma guillemet_non_blanc: "\<not> est_blanc_json 34"
  by (simp add: est_blanc_json_def)

lemma json_dumps_echange_forme:
  "json_dumps_echange h q r @ reste =
     123 # 34 # (concat (map echapper (ascii ''timestamp'')) @ 34 # 58 # 32 #
       34 # (concat (map echapper h) @ 34 # 44 # 32 #
         34 # (concat (map echapper (ascii ''question'')) @ 34 # 58 # 32 #
           34 # (concat (map echapper q) @ 34 # 44 # 32 #
             34 # (concat (map echapper (ascii ''reponse'')) @ 34 # 58 # 32 #
               34 # (concat (map echapper r) @ 34 # 125 # reste))))))"
  by (simp add: json_dumps_echange_def py_encode_basestring_def)

lemma scan_once_valeur:
  "scan_once (Suc n) p (34 # (concat (map echapper s) @ 34 # reste)) = Inr (JStr s, reste)"
  by (simp add: scanstring_chaine)

lemma parse_object_echange:
  "parse_object (Suc (Suc (Suc (Suc n)))) p
     (34 # (concat (map echapper (ascii ''timestamp'')) @ 34 # 58 # 32 #
       34 # (concat (map echapper h) @ 34 # 44 # 32 #
         34 # (concat (map echapper (ascii ''question'')) @ 34 # 58 # 32 #
           34 # (concat (map echapper q) @ 34 # 44 # 32 #
             34 # (concat (map echapper (ascii ''reponse'')) @ 34 # 58 # 32 #
               34 # (concat (map echapper r) @ 34 # 125 # reste))))))) =
   Inr ([(ascii ''timestamp'', JStr h), (ascii ''question'', JStr q),
         (ascii ''reponse'', JStr r)], reste)"
proof -
  have 3: "parse_object (Suc (Suc n)) p
      (34 # (concat (map echapper (ascii ''reponse'')) @ 34 # 58 # 32 #
               34 # (concat (map echapper r) @ 34 # 125 # reste))) =
      Inr ([(ascii ''reponse'', JStr r)], reste)"
    by (rule parse_object_dernier[OF scan_once_valeur guillemet_non_blanc])
  have 2: "parse_object (Suc (Suc (Suc n))) p
      (34 # (concat (map echapper (ascii ''question'')) @ 34 # 58 # 32 #
           34 # (concat (map echapper q) @ 34 # 44 # 32 #
             34 # (concat (map echapper (ascii ''reponse'')) @ 34 # 58 # 32 #
               34 # (concat (map echapper r) @ 34 # 125 # reste))))) =
      Inr ([(ascii ''question'', JStr q), (ascii ''reponse'', JStr r)], reste)"
    by (rule parse_object_suivi[OF scan_once_valeur guillemet_non_blanc 3])
  show ?thesis
    by (rule parse_object_suivi[OF scan_once_valeur guillemet_non_blanc 2])
qed

lemma length_json_dumps_echange: "4 \<le> length (json_dumps_echange h q r @ [10])"
  by (simp add: json_dumps_echange_def py_encode_basestring_def)

lemma json_loads_ligne:
  assumes "\<forall>c\<in>set b. c = 32 \<or> c = 9" and "0 < p"
  shows "json_loads p (b @ json_dumps_echange h q r @ [10]) = Inr (dict_echange h q r)"
proof -
  let ?l = "json_dumps_echange h q r @ [10]"
  from length_json_dumps_echange[of h q r] have "4 \<le> 2 * length ?l" by simp
  then obtain n where "2 * length ?l = 4 + n"
    using le_iff_add by blast
  then have n: "2 * length ?l < Suc (Suc (Suc (Suc (Suc n))))" by simp
  from assms(2) obtain p' where p': "p = Suc p'" by (cases p) auto
  have s: "sauter_blancs (b @ ?l) = ?l"
    unfolding json_dumps_echange_forme
    by (rule sauter_blancs_prefixe[OF assms(1)]) (simp add: est_blanc_json_def)
  have o: "scan_once (Suc (Suc (Suc (Suc (Suc n))))) (Suc p') ?l = Inr (dict_echange h q r, [10])"
    unfolding json_dumps_echange_forme dict_echange_def scan_once_objet parse_object_echange
    by simp
  have f: "sauter_blancs [10] = []"
    by (simp add: sauter_blancs_Cons sauter_blancs_Nil est_blanc_json_def)
  from n s have "2 * length (sauter_blancs (b @ ?l)) < Suc (Suc (Suc (Suc (Suc n))))" by simp
  from json_loads_carburant[OF this, of p] show ?thesis
    unfolding s p' o by (simp add: f)
qed

lemma corps_du_try_ligne:
  assumes "\<forall>c\<in>set b. c = 32 \<or> c = 9" and "0 < p"
  shows "corps_du_try p (b @ json_dumps_echange h q r @ [10]) = Inr (JStr q, JStr r)"
  unfolding corps_du_try_def json_loads_ligne[OF assms] dict_echange_def py_getitem_def
  by (simp add: ascii_def)

lemma corps_du_try_blancs:
  assumes "\<forall>c\<in>set b. c = 32 \<or> c = 9"
  shows "corps_du_try p b = Inl JSONDecodeError"
  by (simp add: corps_du_try_def json_loads_def sauter_blancs_blancs[OF assms])

lemma corps_du_try_sans_place:
  "corps_du_try 0 (json_dumps_echange h q r @ [10]) = Inl RecursionError"
proof -
  have s: "sauter_blancs (json_dumps_echange h q r @ [10]) = json_dumps_echange h q r @ [10]"
    unfolding json_dumps_echange_forme by (simp add: sauter_blancs_Cons est_blanc_json_def)
  show ?thesis
    unfolding corps_du_try_def json_loads_def Let_def s
    unfolding json_dumps_echange_forme scan_once_sans_place by simp
qed

lemma lignes_sans_fin:
  assumes "\<forall>c\<in>set l. c \<noteq> 10 \<and> c \<noteq> 13"
  shows "lignes courante (l @ [10]) = [courante @ l @ [10]]"
  using assms
proof (induction l arbitrary: courante)
  case Nil
  show ?case by simp
next
  case (Cons c l)
  then have c: "c \<noteq> 10" "c \<noteq> 13" by simp_all
  from Cons have ih: "lignes (courante @ [c]) (l @ [10]) = [(courante @ [c]) @ l @ [10]]"
    by simp
  show ?case
  proof (cases l)
    case Nil
    with c show ?thesis by simp
  next
    case (Cons d l')
    with c ih show ?thesis by simp
  qed
qed

lemma lignes_apres_fin:
  assumes "t = 10 \<or> t = 13" and "y \<noteq> 10"
  shows "lignes courante (t # y # ys) = (courante @ [10]) # lignes [] (y # ys)"
  using assms by auto

lemma lignes_append:
  assumes "t = 10 \<or> t = 13" and "y \<noteq> 10"
  shows "lignes courante (xs @ t # y # ys) = lignes courante (xs @ [t]) @ lignes [] (y # ys)"
  using assms
proof (induction courante xs rule: lignes.induct)
  case (1 courante)
  then show ?case by auto
next
  case (2 courante c)
  then show ?case by auto
next
  case (3 courante c d reste)
  show ?case
  proof (cases "c = 13 \<and> d = 10")
    case True
    with 3 show ?thesis
      by (cases reste) auto
  next
    case False
    with 3 show ?thesis by auto
  qed
qed

lemma lignes_sans_terminateur:
  assumes "\<forall>c\<in>set l. c \<noteq> 10 \<and> c \<noteq> 13" and "l \<noteq> []"
  shows "lignes courante l = [courante @ l]"
  using assms
proof (induction l arbitrary: courante)
  case Nil
  then show ?case by simp
next
  case (Cons c l)
  then have c: "c \<noteq> 10" "c \<noteq> 13" by simp_all
  show ?case
  proof (cases l)
    case Nil
    with c show ?thesis by simp
  next
    case (Cons d l')
    with Cons.IH[of "courante @ [c]"] Cons.prems c show ?thesis by simp
  qed
qed

lemma lignes_suite:
  assumes "debut = [] \<or> last debut = 10 \<or> last debut = 13"
    and "\<forall>c\<in>set l. c \<noteq> 10 \<and> c \<noteq> 13" and "l \<noteq> []"
  shows "lignes [] (debut @ l) = lignes [] debut @ lignes [] l"
proof (cases "debut = []")
  case True
  then show ?thesis by simp
next
  case False
  with assms(1) have t: "last debut = 10 \<or> last debut = 13" by simp
  from assms(3) obtain y ys where l: "l = y # ys" by (cases l) auto
  with assms(2) have y: "y \<noteq> 10" by simp
  from False have c: "debut = butlast debut @ [last debut]" by simp
  have "lignes [] (debut @ l) = lignes [] (butlast debut @ last debut # y # ys)"
    using c l by (metis append.assoc append_Cons append_Nil)
  also have "\<dots> = lignes [] (butlast debut @ [last debut]) @ lignes [] (y # ys)"
    using t y by (rule lignes_append)
  finally show ?thesis using c l by simp
qed

text \<open>A text is what comes before its last line without terminator, and that line.\<close>

lemma derniere_ligne_decoupe:
  "\<exists>debut. contenu = debut @ derniere_ligne contenu \<and>
           (debut = [] \<or> last debut = 10 \<or> last debut = 13)"
proof -
  let ?P = "\<lambda>c::nat. c \<noteq> 10 \<and> c \<noteq> 13"
  let ?d = "rev (dropWhile ?P (rev contenu))"
  have a: "contenu = ?d @ derniere_ligne contenu"
    unfolding derniere_ligne_def
    by (metis rev_append rev_rev_ident takeWhile_dropWhile_id)
  have b: "?d = [] \<or> last ?d = 10 \<or> last ?d = 13"
  proof (cases "dropWhile ?P (rev contenu) = []")
    case True
    then show ?thesis by simp
  next
    case False
    then have "\<not> ?P (hd (dropWhile ?P (rev contenu)))" by (rule hd_dropWhile)
    moreover have "last ?d = hd (dropWhile ?P (rev contenu))"
      using False by (simp add: last_rev)
    ultimately show ?thesis by auto
  qed
  from a b show ?thesis by blast
qed

lemma derniere_ligne_sans_fin: "\<forall>c\<in>set (derniere_ligne contenu). c \<noteq> 10 \<and> c \<noteq> 13"
  by (auto simp: derniere_ligne_def dest: set_takeWhileD)

lemma boucle_lignes_historique:
  "boucle_lignes p ls h = h @ boucle_lignes p ls []"
proof (induction ls arbitrary: h)
  case Nil
  show ?case by simp
next
  case (Cons l ls)
  show ?case
  proof (cases "corps_du_try p l")
    case (Inl e)
    with Cons[of h] show ?thesis by simp
  next
    case (Inr e)
    with Cons[of "h @ [e]"] Cons[of "[e]"] show ?thesis by simp
  qed
qed

lemma boucle_lignes_append:
  "boucle_lignes p (xs @ ys) h = boucle_lignes p ys (boucle_lignes p xs h)"
  by (induction xs arbitrary: h) (simp_all split: sum.splits)

lemma boucle_lignes_filtre:
  "boucle_lignes p ls h = h @ List.map_filter (echange_lu p) ls"
  by (induction ls arbitrary: h)
     (simp_all add: List.map_filter_simps echange_lu_def split: sum.splits)

lemma echapper_sans_fin_de_ligne: "\<forall>x\<in>set (echapper c). 32 \<le> x"
  by (auto simp: echapper_def hexc_def)

lemma py_encode_basestring_imprimable: "\<forall>x\<in>set (py_encode_basestring s). 32 \<le> x"
  using echapper_sans_fin_de_ligne by (auto simp: py_encode_basestring_def)

lemma json_dumps_echange_imprimable: "\<forall>x\<in>set (json_dumps_echange h q r). 32 \<le> x"
  using py_encode_basestring_imprimable by (auto simp: json_dumps_echange_def)

lemma echapper_encodable: "x \<in> set (echapper c) \<Longrightarrow> x = c \<or> x < 128"
  by (auto simp: echapper_def hexc_def split: if_splits)

lemma py_encode_basestring_encodable:
  assumes "encodable_utf8 s"
  shows "encodable_utf8 (py_encode_basestring s)"
  using assms echapper_encodable
  by (fastforce simp: py_encode_basestring_def encodable_utf8_def)

lemma encodable_utf8_append:
  "encodable_utf8 (a @ b) \<longleftrightarrow> encodable_utf8 a \<and> encodable_utf8 b"
  by (auto simp: encodable_utf8_def)

lemma chiffre_bornes: "48 \<le> chiffre n k \<and> chiffre n k \<le> 57"
proof -
  have "(n div k) mod 10 < 10" by simp
  then show ?thesis unfolding chiffre_def by linarith
qed

lemma isoformat_bornes: "\<forall>c\<in>set (isoformat t). 45 \<le> c \<and> c \<le> 84"
proof -
  have b: "45 \<le> chiffre n k" "chiffre n k \<le> 84" for n k
    using chiffre_bornes[of n k] by linarith+
  show ?thesis by (simp add: isoformat_def b)
qed

lemma isoformat_encodable: "encodable_utf8 (isoformat t)"
  using isoformat_bornes[of t] by (fastforce simp: encodable_utf8_def)

lemma json_dumps_echange_encodable:
  assumes "encodable_utf8 h" "encodable_utf8 q" "encodable_utf8 r"
  shows "encodable_utf8 (json_dumps_echange h q r @ [10])"
proof -
  have k: "encodable_utf8 (py_encode_basestring (ascii ''timestamp''))"
    "encodable_utf8 (py_encode_basestring (ascii ''question''))"
    "encodable_utf8 (py_encode_basestring (ascii ''reponse''))"
    by (rule py_encode_basestring_encodable, simp add: encodable_utf8_def ascii_def)+
  have p: "encodable_utf8 [123]" "encodable_utf8 [58, 32]" "encodable_utf8 [44, 32]"
    "encodable_utf8 [125]" "encodable_utf8 [10]"
    by (simp_all add: encodable_utf8_def)
  from assms have v: "encodable_utf8 (py_encode_basestring h)"
    "encodable_utf8 (py_encode_basestring q)" "encodable_utf8 (py_encode_basestring r)"
    by (simp_all add: py_encode_basestring_encodable)
  show ?thesis
    unfolding json_dumps_echange_def encodable_utf8_append using k p v by simp
qed

lemma json_dumps_echange_sans_fin:
  "\<forall>c\<in>set (json_dumps_echange h q r). c \<noteq> 10 \<and> c \<noteq> 13"
  using json_dumps_echange_imprimable[of h q r] by fastforce

lemma json_dumps_echange_non_vide: "json_dumps_echange h q r \<noteq> []"
  by (simp add: json_dumps_echange_def)

lemma boucle_apres_ligne:
  assumes "journal_pret (Texte contenu)"
  shows "boucle_lignes p (lignes [] (contenu @ json_dumps_echange h q r @ [10])) [] =
           boucle_lignes p (lignes [] contenu) [] @
           boucle_lignes p [derniere_ligne contenu @ json_dumps_echange h q r @ [10]] []"
proof -
  let ?e = "json_dumps_echange h q r"
  let ?b = "derniere_ligne contenu"
  from derniere_ligne_decoupe[of contenu] obtain debut where
    d: "contenu = debut @ ?b" "debut = [] \<or> last debut = 10 \<or> last debut = 13"
    by blast
  from assms have blancs: "\<forall>c\<in>set ?b. c = 32 \<or> c = 9"
    by (simp add: journal_pret_def)
  have sf: "\<forall>c\<in>set (?b @ ?e). c \<noteq> 10 \<and> c \<noteq> 13"
    using derniere_ligne_sans_fin[of contenu] json_dumps_echange_sans_fin[of h q r] by auto
  have ne: "?b @ ?e @ [10] \<noteq> []" by simp
  have sf': "\<forall>c\<in>set (?b @ ?e @ [10]). c \<noteq> 13" using sf by auto
  have "lignes [] (contenu @ ?e @ [10]) = lignes [] (debut @ (?b @ ?e) @ [10])"
    using d(1) by (metis append.assoc)
  also have "\<dots> = lignes [] debut @ [(?b @ ?e) @ [10]]"
  proof (cases "debut = []")
    case True
    with lignes_sans_fin[OF sf, of "[]"] show ?thesis by simp
  next
    case False
    with d(2) have t: "last debut = 10 \<or> last debut = 13" by simp
    have ne2: "?b @ ?e \<noteq> []" using json_dumps_echange_non_vide[of h q r] by simp
    then obtain y ys where l: "?b @ ?e = y # ys" by (cases "?b @ ?e") auto
    with sf have y: "y \<noteq> 10" by (metis list.set_intros(1))
    from False have c: "debut = butlast debut @ [last debut]" by simp
    have "lignes [] (debut @ (?b @ ?e) @ [10]) =
            lignes [] (butlast debut @ last debut # y # (ys @ [10]))"
      using c l by (metis append.assoc append_Cons append_Nil)
    also have "\<dots> = lignes [] (butlast debut @ [last debut]) @ lignes [] (y # (ys @ [10]))"
      using t y by (rule lignes_append)
    also have "\<dots> = lignes [] debut @ lignes [] ((?b @ ?e) @ [10])"
      using c l by simp
    also have "lignes [] ((?b @ ?e) @ [10]) = [(?b @ ?e) @ [10]]"
      using lignes_sans_fin[OF sf, of "[]"] by simp
    finally show ?thesis .
  qed
  finally have apres: "lignes [] (contenu @ ?e @ [10]) = lignes [] debut @ [?b @ ?e @ [10]]"
    by simp
  have avant: "boucle_lignes p (lignes [] contenu) [] = boucle_lignes p (lignes [] debut) []"
  proof (cases "?b = []")
    case True
    with d(1) show ?thesis by simp
  next
    case False
    have "lignes [] contenu = lignes [] (debut @ ?b)" using d(1) by simp
    also have "\<dots> = lignes [] debut @ lignes [] ?b"
      using d(2) derniere_ligne_sans_fin False by (rule lignes_suite)
    also have "lignes [] ?b = [?b]"
      using lignes_sans_terminateur[OF derniere_ligne_sans_fin False, of "[]"] by simp
    finally show ?thesis
      by (simp add: boucle_lignes_append corps_du_try_blancs[OF blancs])
  qed
  show ?thesis
    unfolding apres avant boucle_lignes_append
    by (rule boucle_lignes_historique)
qed

lemma charger_apres_ligne:
  assumes "journal_pret (Texte contenu)" and "0 < p"
  shows "boucle_lignes p (lignes [] (contenu @ json_dumps_echange h q r @ [10])) [] =
           boucle_lignes p (lignes [] contenu) [] @ [(JStr q, JStr r)]"
proof -
  from assms(1) have blancs: "\<forall>c\<in>set (derniere_ligne contenu). c = 32 \<or> c = 9"
    by (simp add: journal_pret_def)
  show ?thesis
    unfolding boucle_apres_ligne[OF assms(1)]
    by (simp add: corps_du_try_ligne[OF blancs assms(2)])
qed

lemma chiffres_lus:
  "takeWhile est_chiffre (replicate k 49 @ 125 # reste) = replicate k 49"
  "dropWhile est_chiffre (replicate k 49 @ 125 # reste) = 125 # reste"
  by (induction k) (simp_all add: est_chiffre_def)

lemma scan_once_entier:
  "scan_once (Suc n) p (49 # replicate k 49 @ 125 # reste) =
     (if 4300 \<le> k then Inl ValueError else Inr (JNum (49 # replicate k 49), 125 # reste))"
proof -
  have m: "match_number (49 # replicate k 49 @ 125 # reste) =
             Some (49 # replicate k 49, 125 # reste)"
    by (simp add: match_number_def partie_entiere_def chiffres_lus partie_fraction_def
        partie_exposant_def split: list.splits)
  have e: "est_entier (49 # replicate k 49)"
    by (simp add: est_entier_def)
  have c: "nb_chiffres (49 # replicate k 49) = Suc k"
    by (simp add: nb_chiffres_def est_chiffre_def)
  show ?thesis
    by (simp add: commence_par_def ascii_def m e c)
qed

lemma chiffre_non_blanc: "\<not> est_blanc_json 49"
  by (simp add: est_blanc_json_def)

lemma ligne_entier_forme:
  "ligne_entier (49 # replicate k 49) =
     123 # 34 # (concat (map echapper (ascii ''question'')) @ 34 # 58 # 32 #
       34 # (concat (map echapper [97]) @ 34 # 44 # 32 #
         34 # (concat (map echapper (ascii ''reponse'')) @ 34 # 58 # 32 #
           49 # replicate k 49 @ 125 # [10])))"
  by (simp add: ligne_entier_def py_encode_basestring_def)

lemma parse_object_entier:
  "parse_object (Suc (Suc (Suc n))) p
     (34 # (concat (map echapper (ascii ''question'')) @ 34 # 58 # 32 #
       34 # (concat (map echapper [97]) @ 34 # 44 # 32 #
         34 # (concat (map echapper (ascii ''reponse'')) @ 34 # 58 # 32 #
           49 # replicate k 49 @ 125 # reste)))) =
   (if 4300 \<le> k then Inl ValueError
    else Inr ([(ascii ''question'', JStr [97]), (ascii ''reponse'', JNum (49 # replicate k 49))],
              reste))"
proof (cases "4300 \<le> k")
  case True
  have v: "scan_once (Suc n) p (49 # replicate k 49 @ 125 # reste) = Inl ValueError"
    unfolding scan_once_entier using True by simp
  have 2: "parse_object (Suc (Suc n)) p
      (34 # (concat (map echapper (ascii ''reponse'')) @ 34 # 58 # 32 #
           49 # replicate k 49 @ 125 # reste)) = Inl ValueError"
    by (rule parse_object_erreur[OF v chiffre_non_blanc])
  have "parse_object (Suc (Suc (Suc n))) p
     (34 # (concat (map echapper (ascii ''question'')) @ 34 # 58 # 32 #
       34 # (concat (map echapper [97]) @ 34 # 44 # 32 #
         34 # (concat (map echapper (ascii ''reponse'')) @ 34 # 58 # 32 #
           49 # replicate k 49 @ 125 # reste)))) = Inl ValueError"
    by (rule parse_object_suivi_erreur[OF scan_once_valeur guillemet_non_blanc 2])
  with True show ?thesis by simp
next
  case False
  have v: "scan_once (Suc n) p (49 # replicate k 49 @ 125 # reste) =
      Inr (JNum (49 # replicate k 49), 125 # reste)"
    unfolding scan_once_entier using False by simp
  have 2: "parse_object (Suc (Suc n)) p
      (34 # (concat (map echapper (ascii ''reponse'')) @ 34 # 58 # 32 #
           49 # replicate k 49 @ 125 # reste)) =
      Inr ([(ascii ''reponse'', JNum (49 # replicate k 49))], reste)"
    by (rule parse_object_dernier[OF v chiffre_non_blanc])
  have "parse_object (Suc (Suc (Suc n))) p
     (34 # (concat (map echapper (ascii ''question'')) @ 34 # 58 # 32 #
       34 # (concat (map echapper [97]) @ 34 # 44 # 32 #
         34 # (concat (map echapper (ascii ''reponse'')) @ 34 # 58 # 32 #
           49 # replicate k 49 @ 125 # reste)))) =
     Inr ([(ascii ''question'', JStr [97]), (ascii ''reponse'', JNum (49 # replicate k 49))],
          reste)"
    by (rule parse_object_suivi[OF scan_once_valeur guillemet_non_blanc 2])
  with False show ?thesis by simp
qed

lemma json_loads_entier:
  assumes "0 < p"
  shows "json_loads p (ligne_entier (49 # replicate k 49)) =
     (if 4300 \<le> k then Inl ValueError
      else Inr (JObj [(ascii ''question'', JStr [97]),
                      (ascii ''reponse'', JNum (49 # replicate k 49))]))"
proof -
  let ?l = "ligne_entier (49 # replicate k 49)"
  have "3 \<le> 2 * length ?l" by (simp add: ligne_entier_def)
  then obtain n where "2 * length ?l = 3 + n"
    using le_iff_add by blast
  then have n: "2 * length ?l < Suc (Suc (Suc (Suc n)))" by simp
  from assms obtain p' where p': "p = Suc p'" by (cases p) auto
  have s: "sauter_blancs ?l = ?l"
    unfolding ligne_entier_forme by (simp add: sauter_blancs_Cons est_blanc_json_def)
  have f: "sauter_blancs [10] = []"
    by (simp add: sauter_blancs_Cons sauter_blancs_Nil est_blanc_json_def)
  have o: "scan_once (Suc (Suc (Suc (Suc n)))) (Suc p') ?l =
     (if 4300 \<le> k then Inl ValueError
      else Inr (JObj [(ascii ''question'', JStr [97]),
                      (ascii ''reponse'', JNum (49 # replicate k 49))], [10]))"
    unfolding ligne_entier_forme scan_once_objet parse_object_entier by simp
  from n s have "2 * length (sauter_blancs ?l) < Suc (Suc (Suc (Suc n)))" by simp
  from json_loads_carburant[OF this, of p] show ?thesis
    unfolding s p' o by (simp add: f)
qed

lemma corps_du_try_entier:
  assumes "0 < p"
  shows "corps_du_try p (ligne_entier (49 # replicate k 49)) =
     (if 4300 \<le> k then Inl ValueError else Inr (JStr [97], JNum (49 # replicate k 49)))"
  unfolding corps_du_try_def json_loads_entier[OF assms] py_getitem_def
  by (simp add: ascii_def)

lemma lignes_ligne_entier:
  "lignes [] (ligne_entier (49 # replicate k 49)) = [ligne_entier (49 # replicate k 49)]"
proof -
  let ?d = "[123] @ py_encode_basestring (ascii ''question'') @ [58, 32] @
     py_encode_basestring [97] @ [44, 32] @ py_encode_basestring (ascii ''reponse'') @
     [58, 32] @ (49 # replicate k 49) @ [125]"
  have "\<forall>c\<in>set ?d. c \<noteq> 10 \<and> c \<noteq> 13"
    using py_encode_basestring_imprimable by fastforce
  from lignes_sans_fin[OF this, of "[]"] show ?thesis
    by (simp add: ligne_entier_def)
qed

lemma corps_du_try_pas_du_json:
  "corps_du_try p (ascii ''pas du json'' @ [10]) = Inl JSONDecodeError"
  by (simp add: corps_du_try_def json_loads_def sauter_blancs_def est_blanc_json_def ascii_def
      commence_par_def match_number_def partie_entiere_def)

lemma json_loads_colle:
  "json_loads (Suc p) (123 # 125 # json_dumps_echange h q r @ [10]) = Inl JSONDecodeError"
proof -
  let ?s = "123 # 125 # json_dumps_echange h q r @ [10]"
  have s: "sauter_blancs ?s = ?s" by (simp add: sauter_blancs_Cons est_blanc_json_def)
  have o: "scan_once (Suc (2 * length ?s)) (Suc p) ?s =
      Inr (JObj [], json_dumps_echange h q r @ [10])"
    by (simp add: sauter_blancs_Cons est_blanc_json_def)
  have r: "sauter_blancs (json_dumps_echange h q r @ [10]) \<noteq> []"
    unfolding json_dumps_echange_forme by (simp add: sauter_blancs_Cons est_blanc_json_def)
  show ?thesis unfolding json_loads_def Let_def s o using r by simp
qed

lemma sauvegarder_echange_ecrit:
  assumes "encodable_utf8 question" and "encodable_utf8 reponse"
  shows "sauvegarder_echange maintenant question reponse fichier =
           (None, ecrire_a_la_fin fichier
                    (json_dumps_echange (isoformat maintenant) question reponse @ [10]))"
proof -
  have "encodable_utf8 (json_dumps_echange (isoformat maintenant) question reponse @ [10])"
    using isoformat_encodable assms by (rule json_dumps_echange_encodable)
  then show ?thesis by (simp add: sauvegarder_echange_def)
qed

text \<open>
  Claim C6 as stated covers every log, every pair of strings and every state of the
  interpreter. It fails in four ways.

  When the last line of the log has no terminator and is not blank, here a log that holds
  \<open>{}\<close> only, the appended record is glued to it, the line is not valid JSON and the
  reloaded history does not hold the pair.

  When a string holds a surrogate code point nothing is appended: the write raises
  \<open>UnicodeEncodeError\<close>.

  When the log holds bytes that are not valid UTF-8, the record is appended but the reload
  raises \<open>UnicodeDecodeError\<close>.

  When the recursion limit leaves no room for a JSON object, \<open>json.loads\<close> raises
  \<open>RecursionError\<close> on the record, and the line is skipped.
\<close>

theorem journal_non_termine:
  "\<not> journal_pret (Texte [123, 125]) \<and>
   sauvegarder_echange instant_exemple [97] [98] (Texte [123, 125]) =
     (None, Texte ([123, 125] @ json_dumps_echange (isoformat instant_exemple) [97] [98] @ [10])) \<and>
   charger_historique_persistant 1000
     (Texte ([123, 125] @ json_dumps_echange (isoformat instant_exemple) [97] [98] @ [10])) =
     Inr [] \<and>
   \<not> encodable_utf8 [55357] \<and>
   sauvegarder_echange instant_exemple [55357] [98] Absent = (Some UnicodeEncodeError, Texte []) \<and>
   \<not> journal_pret Illisible \<and>
   sauvegarder_echange instant_exemple [97] [98] Illisible = (None, Illisible) \<and>
   charger_historique_persistant 1000 Illisible = Inl UnicodeDecodeError \<and>
   sauvegarder_echange instant_exemple [97] [98] Absent =
     (None, Texte (json_dumps_echange (isoformat instant_exemple) [97] [98] @ [10])) \<and>
   charger_historique_persistant 0
     (Texte (json_dumps_echange (isoformat instant_exemple) [97] [98] @ [10])) = Inr []"
proof -
  let ?l = "json_dumps_echange (isoformat instant_exemple) [97] [98]"
  have e: "encodable_utf8 [97]" "encodable_utf8 [98]"
    by (simp_all add: encodable_utf8_def)
  have s: "sauvegarder_echange instant_exemple [97] [98] fichier =
      (None, ecrire_a_la_fin fichier (?l @ [10]))" for fichier
    using e by (rule sauvegarder_echange_ecrit)
  have sf: "\<forall>c\<in>set ?l. c \<noteq> 10 \<and> c \<noteq> 13"
    by (rule json_dumps_echange_sans_fin)
  then have "\<forall>c\<in>set ([123, 125] @ ?l). c \<noteq> 10 \<and> c \<noteq> 13" by simp
  from lignes_sans_fin[OF this, of "[]"]
  have l: "lignes [] ([123, 125] @ ?l @ [10]) = [123 # 125 # ?l @ [10]]" by simp
  have c: "charger_historique_persistant 1000 (Texte ([123, 125] @ ?l @ [10])) = Inr []"
    unfolding charger_historique_persistant_def journal.case l
    using json_loads_colle[of 999 "isoformat instant_exemple" "[97]" "[98]"]
    by (simp add: corps_du_try_def)
  have "55357 \<in> set (json_dumps_echange (isoformat instant_exemple) [55357] [98] @ [10])"
    by (simp add: json_dumps_echange_def py_encode_basestring_def echapper_def)
  then have n: "\<not> encodable_utf8 (json_dumps_echange (isoformat instant_exemple) [55357] [98] @ [10])"
    unfolding encodable_utf8_def by force
  have u: "sauvegarder_echange instant_exemple [55357] [98] Absent =
      (Some UnicodeEncodeError, Texte [])"
    using n by (simp add: sauvegarder_echange_def ecrire_a_la_fin_def)
  from lignes_sans_fin[OF sf, of "[]"]
  have l0: "lignes [] (?l @ [10]) = [?l @ [10]]" by simp
  have z: "charger_historique_persistant 0 (Texte (?l @ [10])) = Inr []"
    unfolding charger_historique_persistant_def journal.case l0
    by (simp add: corps_du_try_sans_place)
  have p: "\<not> journal_pret (Texte [123, 125])" "\<not> journal_pret Illisible"
    by (simp_all add: journal_pret_def derniere_ligne_def)
  have i: "charger_historique_persistant 1000 Illisible = Inl UnicodeDecodeError"
    by (simp add: charger_historique_persistant_def)
  show ?thesis
    using c u z p i by (simp add: s ecrire_a_la_fin_def encodable_utf8_def)
qed

text \<open>
  Claim C6, amended. For every question and answer string without surrogate code points,
  every log that is absent or holds valid UTF-8 text which is empty, ends with a line
  terminator (as every log written by \<open>sauvegarder_echange\<close> alone does) or has only spaces
  and tabs after its last terminator, and whenever the recursion limit leaves room for one
  JSON object, \<open>sauvegarder_echange\<close> appends one line without raising, and
  \<open>charger_historique_persistant\<close> on the log afterwards returns the history of the log
  before followed by the pair of the question and the answer, which is therefore its last
  element, whatever the timestamp.
\<close>

theorem aller_retour_journal:
  assumes "encodable_utf8 question" and "encodable_utf8 reponse" and "journal_pret fichier"
    and "0 < profondeur"
  shows "\<exists>apres avant.
           sauvegarder_echange maintenant question reponse fichier = (None, apres) \<and>
           charger_historique_persistant profondeur fichier = Inr avant \<and>
           charger_historique_persistant profondeur apres =
             Inr (avant @ [(JStr question, JStr reponse)]) \<and>
           last (avant @ [(JStr question, JStr reponse)]) = (JStr question, JStr reponse)"
proof -
  let ?l = "json_dumps_echange (isoformat maintenant) question reponse @ [10]"
  have s: "sauvegarder_echange maintenant question reponse fichier =
      (None, ecrire_a_la_fin fichier ?l)"
    using assms(1,2) by (rule sauvegarder_echange_ecrit)
  show ?thesis
  proof (cases fichier)
    case Absent
    have v: "journal_pret (Texte [])"
      by (simp add: journal_pret_def derniere_ligne_def)
    from charger_apres_ligne[OF v assms(4), of "isoformat maintenant" question reponse]
    have "charger_historique_persistant profondeur (Texte ?l) =
        Inr ([] @ [(JStr question, JStr reponse)])"
      by (simp add: charger_historique_persistant_def)
    moreover have "charger_historique_persistant profondeur Absent = Inr []"
      by (simp add: charger_historique_persistant_def)
    ultimately show ?thesis
      using s Absent by (simp add: ecrire_a_la_fin_def)
  next
    case Illisible
    with assms(3) show ?thesis by (simp add: journal_pret_def)
  next
    case (Texte contenu)
    with assms(3) have v: "journal_pret (Texte contenu)" by simp
    from charger_apres_ligne[OF v assms(4), of "isoformat maintenant" question reponse]
    have "charger_historique_persistant profondeur (Texte (contenu @ ?l)) =
        Inr (boucle_lignes profondeur (lignes [] contenu) [] @ [(JStr question, JStr reponse)])"
      by (simp add: charger_historique_persistant_def)
    moreover have "charger_historique_persistant profondeur (Texte contenu) =
        Inr (boucle_lignes profondeur (lignes [] contenu) [])"
      by (simp add: charger_historique_persistant_def)
    ultimately show ?thesis
      using s Texte by (simp add: ecrire_a_la_fin_def)
  qed
qed

theorem aller_retour_journal_witness:
  "encodable_utf8 [97] \<and> encodable_utf8 [98] \<and> journal_pret (Texte [32, 9]) \<and> (0::nat) < 1 \<and>
   sauvegarder_echange instant_exemple [97] [98] (Texte [32, 9]) =
     (None, Texte ([32, 9] @ json_dumps_echange (isoformat instant_exemple) [97] [98] @ [10])) \<and>
   charger_historique_persistant 1 (Texte [32, 9]) = Inr [] \<and>
   charger_historique_persistant 1
     (Texte ([32, 9] @ json_dumps_echange (isoformat instant_exemple) [97] [98] @ [10])) =
     Inr [(JStr [97], JStr [98])]"
proof -
  have h: "encodable_utf8 [97]" "encodable_utf8 [98]" "journal_pret (Texte [32, 9])"
    "(0::nat) < 1"
    by (simp_all add: encodable_utf8_def journal_pret_def derniere_ligne_def)
  have s: "sauvegarder_echange instant_exemple [97] [98] (Texte [32, 9]) =
     (None, Texte ([32, 9] @ json_dumps_echange (isoformat instant_exemple) [97] [98] @ [10]))"
    using sauvegarder_echange_ecrit[OF h(1,2), of instant_exemple "Texte [32, 9]"]
    by (simp add: ecrire_a_la_fin_def)
  have "\<forall>c\<in>set [32, 9::nat]. c = 32 \<or> c = 9" by simp
  then have "corps_du_try 1 [32, 9] = Inl JSONDecodeError"
    by (rule corps_du_try_blancs)
  then have c: "charger_historique_persistant 1 (Texte [32, 9]) = Inr []"
    by (simp add: charger_historique_persistant_def)
  from aller_retour_journal[OF h, of instant_exemple] obtain apres avant where
    "sauvegarder_echange instant_exemple [97] [98] (Texte [32, 9]) = (None, apres)"
    "charger_historique_persistant 1 (Texte [32, 9]) = Inr avant"
    "charger_historique_persistant 1 apres = Inr (avant @ [(JStr [97], JStr [98])])"
    by blast
  with s c h show ?thesis by simp
qed

text \<open>
  Claim C7 as stated fails in both directions. A line that is not valid UTF-8 is not
  skipped: the reload raises \<open>UnicodeDecodeError\<close> and returns no history. And a line that
  is valid JSON with the two expected fields is skipped when \<open>json.loads\<close> raises on it: a
  line whose \<open>reponse\<close> field is an integer of 4301 digits makes it raise \<open>ValueError\<close>,
  where the same line with 4300 digits is loaded; a line written by \<open>sauvegarder_echange\<close>
  makes it raise \<open>RecursionError\<close> when the recursion limit leaves no room.
\<close>

theorem ligne_valide_ignoree:
  "charger_historique_persistant 1000 Illisible = Inl UnicodeDecodeError \<and>
   corps_du_try 1000 (ligne_entier (replicate 4300 49)) =
     Inr (JStr [97], JNum (replicate 4300 49)) \<and>
   corps_du_try 1000 (ligne_entier (replicate 4301 49)) = Inl ValueError \<and>
   charger_historique_persistant 1000 (Texte (ligne_entier (replicate 4301 49))) = Inr [] \<and>
   corps_du_try 0 (json_dumps_echange (isoformat instant_exemple) [97] [98] @ [10]) =
     Inl RecursionError"
proof -
  have a: "replicate 4300 (49::nat) = 49 # replicate 4299 49"
    "replicate 4301 (49::nat) = 49 # replicate 4300 49"
    using replicate_Suc[of 4299 "49::nat"] replicate_Suc[of 4300 "49::nat"] by simp_all
  have i: "charger_historique_persistant 1000 Illisible = Inl UnicodeDecodeError"
    by (simp add: charger_historique_persistant_def)
  have v: "corps_du_try 1000 (ligne_entier (replicate 4300 49)) =
      Inr (JStr [97], JNum (replicate 4300 49))"
    unfolding a(1) by (simp add: corps_du_try_entier)
  have w: "corps_du_try 1000 (ligne_entier (replicate 4301 49)) = Inl ValueError"
    unfolding a(2) by (simp add: corps_du_try_entier)
  have c: "charger_historique_persistant 1000 (Texte (ligne_entier (replicate 4301 49))) =
      Inr []"
    unfolding charger_historique_persistant_def journal.case
    unfolding a(2) lignes_ligne_entier
    using w[unfolded a(2)] by simp
  show ?thesis
    using i v w c corps_du_try_sans_place by blast
qed

text \<open>
  Claim C7, amended. When the log holds valid UTF-8 text, reloading it returns the pairs of
  the lines on which the body of the \<open>try\<close> raises nothing, in file order, and nothing for
  the other lines: every line on which \<open>json.loads\<close> raises (the line is not valid JSON, it
  holds an integer of more than 4300 digits, or it is nested beyond what the recursion
  limit allows) or whose value lacks one of the two fields is skipped, and a skipped line
  between two runs of lines leaves the history of the lines before it followed by the
  history of the lines after it. Every line written by \<open>sauvegarder_echange\<close> is loaded,
  provided that the recursion limit leaves room for one JSON object.
\<close>

theorem lignes_mal_formees_ignorees:
  "charger_historique_persistant profondeur (Texte contenu) =
     Inr (List.map_filter (echange_lu profondeur) (lignes [] contenu)) \<and>
   (corps_du_try profondeur mauvaise = Inl err \<longrightarrow>
      boucle_lignes profondeur (avant @ mauvaise # apres) [] =
        boucle_lignes profondeur avant [] @ boucle_lignes profondeur apres []) \<and>
   (0 < profondeur \<longrightarrow>
      echange_lu profondeur (json_dumps_echange horodatage question reponse @ [10]) =
        Some (JStr question, JStr reponse))"
proof -
  have a: "charger_historique_persistant profondeur (Texte contenu) =
     Inr (List.map_filter (echange_lu profondeur) (lignes [] contenu))"
    using boucle_lignes_filtre[of profondeur "lignes [] contenu" "[]"]
    by (simp add: charger_historique_persistant_def)
  have b: "boucle_lignes profondeur (avant @ mauvaise # apres) [] =
        boucle_lignes profondeur avant [] @ boucle_lignes profondeur apres []"
    if "corps_du_try profondeur mauvaise = Inl err"
  proof -
    have "boucle_lignes profondeur (avant @ mauvaise # apres) [] =
            boucle_lignes profondeur apres (boucle_lignes profondeur avant [])"
      using that by (simp add: boucle_lignes_append)
    then show ?thesis
      using boucle_lignes_historique[of profondeur apres "boucle_lignes profondeur avant []"]
      by simp
  qed
  have c: "echange_lu profondeur (json_dumps_echange horodatage question reponse @ [10]) =
        Some (JStr question, JStr reponse)"
    if "0 < profondeur"
    using corps_du_try_ligne[of "[]" profondeur horodatage question reponse] that
    by (simp add: echange_lu_def)
  from a b c show ?thesis by blast
qed

theorem lignes_mal_formees_ignorees_witness:
  "corps_du_try 1 (ascii ''pas du json'' @ [10]) = Inl JSONDecodeError \<and> (0::nat) < 1 \<and>
   boucle_lignes 1
     [json_dumps_echange (isoformat instant_exemple) [97] [98] @ [10],
      ascii ''pas du json'' @ [10],
      json_dumps_echange (isoformat instant_exemple) [99] [100] @ [10]] [] =
     [(JStr [97], JStr [98]), (JStr [99], JStr [100])] \<and>
   charger_historique_persistant 1 (Texte (ascii ''pas du json'' @ [10])) = Inr [] \<and>
   echange_lu 1 (json_dumps_echange (isoformat instant_exemple) [97] [98] @ [10]) =
     Some (JStr [97], JStr [98])"
proof -
  let ?a = "json_dumps_echange (isoformat instant_exemple) [97] [98] @ [10]"
  let ?b = "json_dumps_echange (isoformat instant_exemple) [99] [100] @ [10]"
  let ?m = "ascii ''pas du json'' @ [10]"
  have m: "corps_du_try 1 ?m = Inl JSONDecodeError"
    by (rule corps_du_try_pas_du_json)
  have e: "echange_lu 1 ?a = Some (JStr [97], JStr [98])"
    "echange_lu 1 ?b = Some (JStr [99], JStr [100])" "echange_lu 1 ?m = None"
    using corps_du_try_ligne[of "[]" 1] m by (simp_all add: echange_lu_def)
  have l: "lignes [] ?m = [?m]"
    by (simp add: ascii_def)
  from lignes_mal_formees_ignorees[of 1 ?m ?m JSONDecodeError "[?a]" "[?b]"
      "isoformat instant_exemple" "[97]" "[98]"] m
  have "charger_historique_persistant 1 (Texte ?m) =
          Inr (List.map_filter (echange_lu 1) (lignes [] ?m))"
    "boucle_lignes 1 ([?a] @ ?m # [?b]) [] = boucle_lignes 1 [?a] [] @ boucle_lignes 1 [?b] []"
    "echange_lu 1 ?a = Some (JStr [97], JStr [98])"
    by simp_all
  then show ?thesis
    using m e unfolding l
    by (simp add: boucle_lignes_filtre List.map_filter_simps)
qed

section \<open>Properties of the answer\<close>

text \<open>
  Claim C9 as stated also covers an empty response field. A reply whose \<open>response\<close> field is
  the empty string gives the empty string as the answer, not the placeholder.
\<close>

theorem reponse_vide:
  "answer (JObj [(ascii ''response'', JStr [])]) = Inr (JStr []) \<and> JStr [] \<noteq> JStr placeholder"
  by (simp add: answer_def placeholder_def)

text \<open>
  Claim C9, amended. For every reply of the generation service that is a JSON object without
  a \<open>response\<close> field, the answer is the literal placeholder string. When the field is
  present its value is the answer as it is, empty or not.
\<close>

theorem reponse_absente:
  "(ascii ''response'' \<notin> fst ` set kvs \<longrightarrow> answer (JObj kvs) = Inr (JStr placeholder)) \<and>
   (map_of (rev kvs) (ascii ''response'') = Some v \<longrightarrow> answer (JObj kvs) = Inr v)"
proof -
  have "map_of (rev kvs) (ascii ''response'') = None" if "ascii ''response'' \<notin> fst ` set kvs"
    using that by (simp add: map_of_eq_None_iff)
  then show ?thesis by (auto simp: answer_def)
qed

theorem reponse_absente_witness:
  "ascii ''response'' \<notin> fst ` set [(ascii ''model'', JStr (ascii ''mistral''))] \<and>
   answer (JObj [(ascii ''model'', JStr (ascii ''mistral''))]) = Inr (JStr placeholder)"
proof -
  have h: "ascii ''response'' \<notin> fst ` set [(ascii ''model'', JStr (ascii ''mistral''))]"
    by (simp add: ascii_def)
  with reponse_absente[of "[(ascii ''model'', JStr (ascii ''mistral''))]"] show ?thesis
    by blast
qed

end
